theory Spec2Isabelle
  imports Main "HOL-Library.Sublist"
begin

section \<open>The Logger of utility/logger.js\<close>

text \<open>
  The class \<^verbatim>\<open>Logger\<close> writes time-stamped lines to one file, reads
  them back with an optional filter, and deletes the lines that are too old.  Every
  operation is attached to one promise chain, so the operations of one instance run
  one after the other.

  A JavaScript string is modelled as a \<^typ>\<open>string\<close>: a list of code units below 256.
\<close>

subsection \<open>String operations of the platform\<close>

text \<open>\<^verbatim>\<open>s.split("\n")\<close>: the pieces between the line feeds; there is always
  at least one piece.\<close>

fun split_nl :: "string \<Rightarrow> string list" where
  "split_nl [] = [[]]"
| "split_nl (c # cs) =
     (if c = CHR 0x0A then [] # split_nl cs
      else (case split_nl cs of p # ps \<Rightarrow> (c # p) # ps | [] \<Rightarrow> [[c]]))"

text \<open>\<^verbatim>\<open>xs.join("\n")\<close>.\<close>

fun join_nl :: "string list \<Rightarrow> string" where
  "join_nl [] = []"
| "join_nl [x] = x"
| "join_nl (x # y # ys) = x @ CHR 0x0A # join_nl (y # ys)"

text \<open>\<^verbatim>\<open>s.includes(t)\<close>: \<open>t\<close> occurs in \<open>s\<close> as a contiguous piece.\<close>

fun includes_str :: "string \<Rightarrow> string \<Rightarrow> bool" where
  "includes_str [] t = (t = [])"
| "includes_str (c # cs) t = (prefix t (c # cs) \<or> includes_str cs t)"

text \<open>A string is truthy when it is there and not empty (\<^verbatim>\<open>null\<close> is \<open>None\<close>).\<close>

fun truthy :: "string option \<Rightarrow> bool" where
  "truthy None = False"
| "truthy (Some s) = (s \<noteq> [])"

text \<open>A number turned into a string by \<^verbatim>\<open>+\<close> or a template: its decimal digits.\<close>

definition digit_char :: "nat \<Rightarrow> char" where
  "digit_char n = char_of (48 + n)"

fun number_string :: "nat \<Rightarrow> string" where
  "number_string n =
     (if n < 10 then [digit_char n] else number_string (n div 10) @ [digit_char (n mod 10)])"

declare number_string.simps [simp del]

definition is_digit :: "char \<Rightarrow> bool" where
  "is_digit c = (48 \<le> (of_char c :: nat) \<and> (of_char c :: nat) \<le> 57)"

text \<open>A string of digits turned into a number (\<^verbatim>\<open>ToNumber\<close>); the captures it is
  applied to hold digits only.\<close>

definition to_number :: "string \<Rightarrow> nat" where
  "to_number s = foldl (\<lambda>n c. 10 * n + (of_char c - 48)) 0 s"

subsection \<open>Regular expressions\<close>

text \<open>
  The two patterns of the constructor use an optional item, a bounded repetition of
  \<^verbatim>\<open>\d\<close>, \<^verbatim>\<open>\s\<close>, \<^verbatim>\<open>.\<close>, literal text and numbered groups.
  \<open>rx_match\<close> is the backtracking matcher: it returns every way the pattern can match
  at the start of the input, in the order the engine tries them (greedy first), each with
  the rest of the input and the captures.
\<close>

datatype rx =
    Eps
  | Lit string
  | Digit
  | Space
  | Any
  | Seq rx rx
  | Opt rx
  | Grp nat rx

type_synonym captures = "nat \<Rightarrow> string option"

definition is_space :: "char \<Rightarrow> bool" where
  "is_space c = (of_char c \<in> {9, 10, 11, 12, 13, 32, 160 :: nat})"

definition is_line_terminator :: "char \<Rightarrow> bool" where
  "is_line_terminator c = (of_char c \<in> {10, 13 :: nat})"

fun rx_class :: "(char \<Rightarrow> bool) \<Rightarrow> string \<times> captures \<Rightarrow> (string \<times> captures) list" where
  "rx_class p ([], m) = []"
| "rx_class p (c # cs, m) = (if p c then [(cs, m)] else [])"

fun rx_match :: "rx \<Rightarrow> string \<times> captures \<Rightarrow> (string \<times> captures) list" where
  "rx_match Eps st = [st]"
| "rx_match (Lit l) (s, m) = (if prefix l s then [(drop (length l) s, m)] else [])"
| "rx_match Digit st = rx_class is_digit st"
| "rx_match Space st = rx_class is_space st"
| "rx_match Any st = rx_class (\<lambda>c. \<not> is_line_terminator c) st"
| "rx_match (Seq a b) st = concat (map (rx_match b) (rx_match a st))"
| "rx_match (Opt a) st = rx_match a st @ [st]"
| "rx_match (Grp i a) (s, m) =
     map (\<lambda>(s', m'). (s', m'(i \<mapsto> take (length s - length s') s))) (rx_match a (s, m))"

text \<open>\<^verbatim>\<open>r{lo,hi}\<close>, greedy.\<close>

fun rep :: "nat \<Rightarrow> nat \<Rightarrow> rx \<Rightarrow> rx" where
  "rep 0 0 r = Eps"
| "rep 0 (Suc hi) r = Opt (Seq r (rep 0 hi r))"
| "rep (Suc lo) 0 r = Seq r (rep lo 0 r)"
| "rep (Suc lo) (Suc hi) r = Seq r (rep lo hi r)"

fun seqs :: "rx list \<Rightarrow> rx" where
  "seqs [] = Eps"
| "seqs [r] = r"
| "seqs (r # rs) = Seq r (seqs rs)"

text \<open>\<^verbatim>\<open>s.match(r)\<close> and \<^verbatim>\<open>r.exec(s)\<close> for a pattern that starts with
  \<^verbatim>\<open>^\<close> and has no flags: the first match at the start of the input, or
  \<^verbatim>\<open>null\<close>.  \<^verbatim>\<open>r.test(s)\<close> says whether there is one.\<close>

definition rx_first :: "rx \<Rightarrow> string \<times> captures \<Rightarrow> (string \<times> captures) option" where
  "rx_first r st = (case rx_match r st of [] \<Rightarrow> None | x # _ \<Rightarrow> Some x)"

text \<open>The rests of the input that the matches leave, in the same order.\<close>

definition rx_rems :: "rx \<Rightarrow> string \<Rightarrow> string list" where
  "rx_rems r s = map fst (rx_match r (s, Map.empty))"

definition rx_exec :: "rx \<Rightarrow> string \<Rightarrow> captures option" where
  "rx_exec r s = map_option snd (rx_first r (s, Map.empty))"

definition rx_test :: "rx \<Rightarrow> string \<Rightarrow> bool" where
  "rx_test r s = (rx_exec r s \<noteq> None)"

subsection \<open>The constructor\<close>

datatype io_error = ENOENT | EEXIST | EACCES

text \<open>
  What the code throws or rejects with:
  the two errors of the constructor, the \<^verbatim>\<open>SyntaxError\<close> of
  \<^verbatim>\<open>new RegExp\<close>, the rejection of \<^verbatim>\<open>getLogs\<close>, the error
  of a failed write in \<^verbatim>\<open>log\<close> and in \<^verbatim>\<open>cleanUp\<close>, the
  \<^verbatim>\<open>TypeError\<close> of \<^verbatim>\<open>data.split\<close> when \<^verbatim>\<open>data\<close> is
  the error of a failed read, and whatever a callback throws.
\<close>

datatype error =
    MissingParameter
  | BadFlag
  | PatternSyntaxError
  | InvalidDate string
  | LogWriteError io_error
  | SplitNotAFunction
  | CleanUpWriteError io_error
  | Thrown string

record logger =
  path :: string
  flag :: string
  log_max_age :: int
  date_regex :: rx
  date_cleanUp_regex :: rx
  auto_format :: bool

text \<open>
  The constructor pastes the delimiters, as they are, into the source text of its two
  patterns.  \<open>date_regex_source\<close> and \<open>date_cleanUp_regex_source\<close> are the two
  template literals after their escapes are read: a doubled backslash in the literal is
  one backslash, and a backslash before a dot leaves the dot.
\<close>

definition backslash :: string where
  "backslash = [CHR 0x5C]"

definition date_regex_source :: "string \<Rightarrow> string \<Rightarrow> string" where
  "date_regex_source date_delimiter time_delimiter =
     ''^'' @ backslash @ ''[?'' @ backslash @ ''d{1,2}'' @ date_delimiter
       @ backslash @ ''d{1,2}'' @ date_delimiter @ backslash @ ''d{4}'' @ backslash @ ''s?(?:''
       @ backslash @ ''d{1,2}'' @ time_delimiter @ backslash @ ''d{1,2}'' @ time_delimiter
       @ backslash @ ''d{1,2}.'' @ backslash @ ''d{1,3})?''"

definition date_cleanUp_regex_source :: "string \<Rightarrow> string \<Rightarrow> string" where
  "date_cleanUp_regex_source date_delimiter time_delimiter =
     ''^'' @ backslash @ ''[?('' @ backslash @ ''d{1,2})'' @ backslash @ date_delimiter
       @ ''('' @ backslash @ ''d{1,2})'' @ backslash @ date_delimiter
       @ ''('' @ backslash @ ''d{4})'' @ backslash @ ''s?(?:('' @ backslash @ ''d{1,2})''
       @ time_delimiter @ ''('' @ backslash @ ''d{1,2})'' @ time_delimiter
       @ ''('' @ backslash @ ''d{1,2}).('' @ backslash @ ''d{1,3}))?''"

text \<open>
  What the engine makes of a source text is the work of \<^verbatim>\<open>new RegExp\<close>, a
  function of the platform: it returns the pattern or throws a
  \<^verbatim>\<open>SyntaxError\<close>.  The constructor takes it as a parameter, so a delimiter is
  read the way the platform reads it, whatever it holds.
\<close>

type_synonym regexp_ctor = "string \<Rightarrow> error + rx"

definition Logger_new ::
  "regexp_ctor \<Rightarrow> string \<Rightarrow> string \<Rightarrow> int \<Rightarrow> string \<Rightarrow> string \<Rightarrow> bool
     \<Rightarrow> error + logger" where
  "Logger_new RegExp file flg max_age date_delimiter time_delimiter auto =
     (if file = [] then Inl MissingParameter
      else if flg \<noteq> ''a'' \<and> flg \<noteq> ''ax'' \<and> flg \<noteq> ''w'' \<and> flg \<noteq> ''wx'' then Inl BadFlag
      else (case RegExp (date_regex_source date_delimiter time_delimiter) of
              Inl err \<Rightarrow> Inl err
            | Inr r1 \<Rightarrow>
                (case RegExp (date_cleanUp_regex_source date_delimiter time_delimiter) of
                   Inl err \<Rightarrow> Inl err
                 | Inr r2 \<Rightarrow>
                     Inr \<lparr>path = file, flag = flg, log_max_age = max_age, date_regex = r1,
                          date_cleanUp_regex = r2, auto_format = auto\<rparr>)))"

text \<open>
  A delimiter is plain when none of its characters means something in a pattern and its
  first character is no letter and no digit (in the second source it follows a backslash);
  the defaults \<^verbatim>\<open>/\<close> and \<^verbatim>\<open>:\<close> are plain.  For plain delimiters the
  engine reads each delimiter as the text it is, and the two sources are the patterns
  \<open>mk_date_regex\<close> and \<open>mk_date_cleanUp_regex\<close>: these two definitions say what
  the sources mean for plain delimiters only, and the properties that use them are
  stated for stores whose patterns they are.
\<close>

definition pattern_syntax :: string where
  "pattern_syntax = ''^$.*+?()[]{}|'' @ [CHR 0x5C]"

definition alphanumeric :: "char \<Rightarrow> bool" where
  "alphanumeric c =
     (let n = of_char c :: nat
      in (48 \<le> n \<and> n \<le> 57) \<or> (65 \<le> n \<and> n \<le> 90) \<or> (97 \<le> n \<and> n \<le> 122))"

definition plain_delimiter :: "string \<Rightarrow> bool" where
  "plain_delimiter d =
     (d \<noteq> [] \<and> list_all (\<lambda>c. c \<notin> set pattern_syntax \<and> \<not> is_line_terminator c) d
      \<and> \<not> alphanumeric (hd d))"

definition mk_date_regex :: "string \<Rightarrow> string \<Rightarrow> rx" where
  "mk_date_regex date_delimiter time_delimiter =
     seqs [Opt (Lit ''[''), rep 1 2 Digit, Lit date_delimiter, rep 1 2 Digit,
           Lit date_delimiter, rep 4 4 Digit, Opt Space,
           Opt (seqs [rep 1 2 Digit, Lit time_delimiter, rep 1 2 Digit, Lit time_delimiter,
                      rep 1 2 Digit, Any, rep 1 3 Digit])]"

definition mk_date_cleanUp_regex :: "string \<Rightarrow> string \<Rightarrow> rx" where
  "mk_date_cleanUp_regex date_delimiter time_delimiter =
     seqs [Opt (Lit ''[''), Grp 1 (rep 1 2 Digit), Lit date_delimiter, Grp 2 (rep 1 2 Digit),
           Lit date_delimiter, Grp 3 (rep 4 4 Digit), Opt Space,
           Opt (seqs [Grp 4 (rep 1 2 Digit), Lit time_delimiter, Grp 5 (rep 1 2 Digit),
                      Lit time_delimiter, Grp 6 (rep 1 2 Digit), Any, Grp 7 (rep 1 3 Digit)])]"

text \<open>The instance made with the default arguments after the file name, on a platform
  that reads the two default sources as the patterns above.\<close>

definition default_logger :: "string \<Rightarrow> logger" where
  "default_logger file =
     \<lparr>path = file, flag = ''a'', log_max_age = 7776000,
      date_regex = mk_date_regex ''/'' '':'',
      date_cleanUp_regex = mk_date_cleanUp_regex ''/'' '':'',
      auto_format = True\<rparr>"

subsection \<open>Formatting a line\<close>

text \<open>The getters of a \<^verbatim>\<open>Date\<close> in local time; \<open>getMonth\<close> counts from 0.\<close>

record dateObj =
  getFullYear :: nat
  getMonth :: nat
  getDate :: nat
  getHours :: nat
  getMinutes :: nat
  getSeconds :: nat
  getMilliseconds :: nat

definition pad2 :: "nat \<Rightarrow> string" where
  "pad2 n = (if n < 10 then ''0'' @ number_string n else number_string n)"

definition format :: "string \<Rightarrow> dateObj \<Rightarrow> string" where
  "format message d =
     [CHR 0x0A] @ ''['' @ pad2 (getDate d) @ ''/'' @ pad2 (getMonth d + 1) @ ''/''
       @ number_string (getFullYear d) @ '' '' @ pad2 (getHours d) @ '':''
       @ pad2 (getMinutes d) @ '':'' @ pad2 (getSeconds d) @ ''.''
       @ number_string (getMilliseconds d) @ ''] - '' @ message @ [CHR 0x0A]"

text \<open>The line that \<open>format\<close> puts between its two line feeds.\<close>

definition formatted_entry :: "string \<Rightarrow> dateObj \<Rightarrow> string" where
  "formatted_entry message d =
     ''['' @ pad2 (getDate d) @ ''/'' @ pad2 (getMonth d + 1) @ ''/''
       @ number_string (getFullYear d) @ '' '' @ pad2 (getHours d) @ '':''
       @ pad2 (getMinutes d) @ '':'' @ pad2 (getSeconds d) @ ''.''
       @ number_string (getMilliseconds d) @ ''] - '' @ message"

text \<open>The ranges of the getters for a date whose year has four digits, and the time
  that \<^verbatim>\<open>Date\<close> gives back for the fields of a date.\<close>

definition date_in_range :: "dateObj \<Rightarrow> bool" where
  "date_in_range d =
     (1000 \<le> getFullYear d \<and> getFullYear d \<le> 9999 \<and> getMonth d \<le> 11
      \<and> 1 \<le> getDate d \<and> getDate d \<le> 31 \<and> getHours d \<le> 23 \<and> getMinutes d \<le> 59
      \<and> getSeconds d \<le> 59 \<and> getMilliseconds d \<le> 999)"

text \<open>
  The line as the specification words it, with the delimiters of the store:
  \<^verbatim>\<open>"\n[{day}{dateDelim}{month}{dateDelim}{year} {hour}{timeDelim}{minute}{timeDelim}{second}.{millisecond}] - {message}\n"\<close>.
\<close>

definition spec_format :: "string \<Rightarrow> string \<Rightarrow> string \<Rightarrow> dateObj \<Rightarrow> string" where
  "spec_format date_delimiter time_delimiter message d =
     [CHR 0x0A] @ ''['' @ pad2 (getDate d) @ date_delimiter @ pad2 (getMonth d + 1)
       @ date_delimiter @ number_string (getFullYear d) @ '' '' @ pad2 (getHours d)
       @ time_delimiter @ pad2 (getMinutes d) @ time_delimiter @ pad2 (getSeconds d) @ ''.''
       @ number_string (getMilliseconds d) @ ''] - '' @ message @ [CHR 0x0A]"

text \<open>
  The date filter as the specification words it:
  \<^verbatim>\<open>DD<dateDelim>MM<dateDelim>YYYY[ HH<timeDelim>MM<timeDelim>SS.mmm]\<close>, the whole
  string and nothing else.
\<close>

definition spec_date_pattern :: "string \<Rightarrow> string \<Rightarrow> rx" where
  "spec_date_pattern date_delimiter time_delimiter =
     seqs [rep 2 2 Digit, Lit date_delimiter, rep 2 2 Digit, Lit date_delimiter, rep 4 4 Digit,
           Opt (seqs [Lit '' '', rep 2 2 Digit, Lit time_delimiter, rep 2 2 Digit,
                      Lit time_delimiter, rep 2 2 Digit, Lit ''.'', rep 3 3 Digit])]"

definition spec_conforms :: "string \<Rightarrow> string \<Rightarrow> string \<Rightarrow> bool" where
  "spec_conforms date_delimiter time_delimiter s =
     ([] \<in> fst ` set (rx_match (spec_date_pattern date_delimiter time_delimiter) (s, Map.empty)))"

subsection \<open>The file\<close>

text \<open>
  The file at \<open>path\<close>: its text when it exists, and whether the process may read and
  write it.  A call that fails leaves the file as it was.
\<close>

record log_file =
  content :: "string option"
  readable :: bool
  writable :: bool

text \<open>The text of the file; a file that does not exist has none.\<close>

definition text_of :: "log_file \<Rightarrow> string" where
  "text_of f = (case content f of None \<Rightarrow> [] | Some d \<Rightarrow> d)"

definition readFile :: "log_file \<Rightarrow> io_error + string" where
  "readFile f =
     (case content f of None \<Rightarrow> Inl ENOENT
      | Some d \<Rightarrow> if readable f then Inr d else Inl EACCES)"

text \<open>\<^verbatim>\<open>writeFile(path, data, {flag})\<close> for the four flags the constructor lets
  through: \<^verbatim>\<open>a\<close> appends, \<^verbatim>\<open>w\<close> replaces, and with \<^verbatim>\<open>x\<close> the
  call fails when the file exists.\<close>

definition writeFile :: "log_file \<Rightarrow> string \<Rightarrow> string \<Rightarrow> io_error + log_file" where
  "writeFile f data flg =
     (if \<not> writable f then Inl EACCES
      else if (flg = ''ax'' \<or> flg = ''wx'') \<and> content f \<noteq> None then Inl EEXIST
      else if flg = ''a'' \<or> flg = ''ax''
        then Inr (f\<lparr>content := Some ((case content f of None \<Rightarrow> [] | Some d \<Rightarrow> d) @ data)\<rparr>)
        else Inr (f\<lparr>content := Some data\<rparr>))"

text \<open>\<^verbatim>\<open>data.split("\n").flatMap(x => x ? [x] : [])\<close>: the non-empty lines.\<close>

definition entries :: "string \<Rightarrow> string list" where
  "entries data = concat (map (\<lambda>x. if x \<noteq> [] then [x] else []) (split_nl data))"

text \<open>\<^verbatim>\<open>#getLogData\<close>.  A failed read is caught and its error becomes
  \<open>data\<close>; an error has no \<^verbatim>\<open>split\<close>, so the call throws.\<close>

definition getLogData :: "log_file \<Rightarrow> error + string list" where
  "getLogData f =
     (case readFile f of Inl err \<Rightarrow> Inl SplitNotAFunction
      | Inr data \<Rightarrow> Inr (entries data))"

subsection \<open>The handler of the three events\<close>

text \<open>
  A callback gets the lines, or \<^verbatim>\<open>null\<close> and a message; it returns, or throws
  (\<open>Some\<close> of what it throws).  A callback that calls the logger again is outside the
  model.
\<close>

type_synonym callback = "string list option \<Rightarrow> string option \<Rightarrow> error option"

text \<open>\<^verbatim>\<open>if(cb) cb(...)\<close>: what the call throws, if anything.\<close>

fun call_cb :: "callback option \<Rightarrow> string list option \<Rightarrow> string option \<Rightarrow> error option" where
  "call_cb None logs msg = None"
| "call_cb (Some c) logs msg = c logs msg"

text \<open>The event and its parameter, as \<^verbatim>\<open>#handler\<close> gets them.\<close>

datatype task =
    Log_task string
  | Get_logs_task "callback option" "string option" "string option"
  | Clean_up_task

text \<open>What a link of the chain is fulfilled with.\<close>

datatype val = Undefined | Logs "string list" | Err error

text \<open>\<^verbatim>\<open>x && log.includes(x)\<close>.\<close>

fun and_includes :: "string option \<Rightarrow> string \<Rightarrow> bool" where
  "and_includes None lg = False"
| "and_includes (Some x) lg = (x \<noteq> [] \<and> includes_str lg x)"

text \<open>The function given to \<^verbatim>\<open>filter\<close> in the event \<^verbatim>\<open>get_logs\<close>.\<close>

definition get_logs_filter :: "string option \<Rightarrow> string option \<Rightarrow> string \<Rightarrow> bool" where
  "get_logs_filter content_param date_param lg =
     (if lg = [] then False
      else if \<not> truthy content_param \<and> \<not> truthy date_param then True
      else if and_includes content_param lg then True
      else if and_includes date_param lg then True
      else False)"

text \<open>
  \<^verbatim>\<open>new Date(y, m, d, h, min, s, ms).getTime()\<close> depends on the time zone of the
  process, so the handler takes it as a parameter.  \<open>utc_time\<close> is that function in
  the zone UTC: a month outside 0..11 and a day outside the month carry over, and a year
  in 0..99 means 1900 plus the year.
\<close>

type_synonym date_ctor = "int \<Rightarrow> int \<Rightarrow> int \<Rightarrow> int \<Rightarrow> int \<Rightarrow> int \<Rightarrow> int \<Rightarrow> int"

definition days_from_civil :: "int \<Rightarrow> int \<Rightarrow> int" where
  "days_from_civil y m =
     (let y' = (if m \<le> 2 then y - 1 else y);
          era = y' div 400;
          yoe = y' - era * 400;
          doy = (153 * (if m > 2 then m - 3 else m + 9) + 2) div 5;
          doe = yoe * 365 + yoe div 4 - yoe div 100 + doy
      in era * 146097 + doe - 719468)"

definition utc_time :: date_ctor where
  "utc_time y m d h mi s ms =
     (let yr = (if 0 \<le> y \<and> y \<le> 99 then 1900 + y else y);
          day = days_from_civil (yr + m div 12) (m mod 12 + 1) + d - 1
      in day * 86400000 + h * 3600000 + mi * 60000 + s * 1000 + ms)"

text \<open>\<^verbatim>\<open>ma[i] || 0\<close> as a number.\<close>

fun or_zero :: "string option \<Rightarrow> int" where
  "or_zero None = 0"
| "or_zero (Some x) = (if x = [] then 0 else int (to_number x))"

text \<open>
  The time of a line: the pattern is matched and its groups go to \<^verbatim>\<open>Date\<close>.
  \<open>None\<close> is no match; the inner \<open>None\<close> is an invalid date (a group 1, 2 or 3 that
  is \<^verbatim>\<open>undefined\<close>), whose time is \<^verbatim>\<open>NaN\<close>.
\<close>

definition entry_time :: "logger \<Rightarrow> date_ctor \<Rightarrow> string \<Rightarrow> int option option" where
  "entry_time L mk lg =
     (case rx_exec (date_cleanUp_regex L) lg of
        None \<Rightarrow> None
      | Some ma \<Rightarrow>
          (case (ma 3, ma 2, ma 1) of
             (Some y, Some m, Some d) \<Rightarrow>
               Some (Some (mk (int (to_number y)) (int (to_number m) - 1) (int (to_number d))
                              (or_zero (ma 4)) (or_zero (ma 5)) (or_zero (ma 6)) (or_zero (ma 7))))
           | _ \<Rightarrow> Some None))"

text \<open>The function given to \<^verbatim>\<open>filter\<close> in the event \<^verbatim>\<open>clean_up\<close>;
  \<open>now\<close> is \<^verbatim>\<open>Date.now()\<close>, read as one value during the pass.  A comparison
  with \<^verbatim>\<open>NaN\<close> is false.\<close>

definition clean_up_filter :: "logger \<Rightarrow> date_ctor \<Rightarrow> int \<Rightarrow> string \<Rightarrow> bool" where
  "clean_up_filter L mk now lg =
     (if lg = [] then False
      else (case entry_time L mk lg of
              None \<Rightarrow> False
            | Some None \<Rightarrow> True
            | Some (Some date) \<Rightarrow>
                (let age = now - date
                 in if age > log_max_age L * 1000 then False else True)))"

text \<open>\<^verbatim>\<open>#handler\<close>: \<open>Inl\<close> is what it throws.\<close>

fun handler ::
  "logger \<Rightarrow> date_ctor \<Rightarrow> int \<Rightarrow> task \<Rightarrow> log_file \<Rightarrow> (error + val) \<times> log_file" where
  "handler L mk now (Log_task event_param) f =
     (case writeFile f event_param (flag L) of
        Inl err \<Rightarrow> (Inl (LogWriteError err), f)
      | Inr f' \<Rightarrow> (Inr Undefined, f'))"
| "handler L mk now (Get_logs_task cb date_param content_param) f =
     (case getLogData f of
        Inl err \<Rightarrow> (Inl err, f)
      | Inr logs \<Rightarrow>
          (let result =
                 (if \<not> truthy content_param \<and> \<not> truthy date_param then logs
                  else filter (get_logs_filter content_param date_param) logs)
           in (case call_cb cb (Some result) None of
                 Some thrown \<Rightarrow> (Inl thrown, f)
               | None \<Rightarrow> (Inr (Logs result), f))))"
| "handler L mk now Clean_up_task f =
     (case getLogData f of
        Inl err \<Rightarrow> (Inl err, f)
      | Inr logs \<Rightarrow>
          (let filtered_logs = filter (clean_up_filter L mk now) logs;
               filtered_logs = concat (map (\<lambda>x. [[], x]) filtered_logs) @ [[]]
           in (case writeFile f (join_nl filtered_logs) ''w'' of
                 Inl err \<Rightarrow> (Inl (CleanUpWriteError err), f)
               | Inr f' \<Rightarrow> (Inr Undefined, f'))))"

subsection \<open>The promise chain\<close>

text \<open>
  Each call attaches \<^verbatim>\<open>() => this.#handler(...).catch(err => err)\<close> to the end
  of the chain.  A link runs when the link before it is settled, and it is always
  fulfilled: with the result of the handler, or with what the handler threw.
\<close>

definition link :: "logger \<Rightarrow> date_ctor \<Rightarrow> int \<Rightarrow> task \<Rightarrow> log_file \<Rightarrow> val \<times> log_file" where
  "link L mk now t f =
     (case handler L mk now t f of
        (Inl err, f') \<Rightarrow> (Err err, f')
      | (Inr v, f') \<Rightarrow> (v, f'))"

text \<open>
  The chain is the list of its links in the order they were attached.  \<open>run_chain\<close>
  runs the links from link number \<open>k\<close> on; \<open>clk i\<close> is \<^verbatim>\<open>Date.now()\<close> while
  link \<open>i\<close> runs.  It returns what each link is fulfilled with, and the file at the end.
\<close>

fun run_chain ::
  "logger \<Rightarrow> date_ctor \<Rightarrow> (nat \<Rightarrow> int) \<Rightarrow> nat \<Rightarrow> task list \<Rightarrow> log_file \<Rightarrow> val list \<times> log_file" where
  "run_chain L mk clk k [] f = ([], f)"
| "run_chain L mk clk k (t # ts) f =
     (case link L mk (clk k) t f of
        (v, f') \<Rightarrow> (case run_chain L mk clk (Suc k) ts f' of (vs, f'') \<Rightarrow> (v # vs, f'')))"

subsection \<open>The public methods\<close>

text \<open>\<^verbatim>\<open>log(text, format)\<close>; \<open>today\<close> is \<^verbatim>\<open>new Date()\<close> at the call.\<close>

definition log :: "logger \<Rightarrow> string \<Rightarrow> bool \<Rightarrow> dateObj \<Rightarrow> task list \<Rightarrow> task list" where
  "log L text_param fmt today promise_chain =
     promise_chain @ [Log_task (if auto_format L \<or> fmt then format text_param today else text_param)]"

text \<open>What \<^verbatim>\<open>getLogs\<close> returns: a rejected promise, or the promise of the link
  it attached (the link's number in the chain).\<close>

datatype promise = Rejected error | Link_promise nat

definition invalid_date :: "string \<Rightarrow> string" where
  "invalid_date d = ''Invalid date: '' @ d @ ''. Must be in the format DD/MM/YYYY HH:MM:SS''"

definition getLogs ::
  "logger \<Rightarrow> callback option \<Rightarrow> string option \<Rightarrow> string option \<Rightarrow> task list
     \<Rightarrow> promise \<times> task list" where
  "getLogs L cb date_param content_param promise_chain =
     (case (if truthy date_param then date_param else None) of
        Some d \<Rightarrow>
          if \<not> rx_test (date_regex L) d
          then (case call_cb cb None (Some (invalid_date d)) of
                  Some thrown \<Rightarrow> (Rejected thrown, promise_chain)
                | None \<Rightarrow> (Rejected (InvalidDate (invalid_date d)), promise_chain))
          else (Link_promise (length promise_chain),
                promise_chain @ [Get_logs_task cb date_param content_param])
      | None \<Rightarrow>
          (Link_promise (length promise_chain),
           promise_chain @ [Get_logs_task cb date_param content_param]))"

definition cleanUp :: "task list \<Rightarrow> task list" where
  "cleanUp promise_chain = promise_chain @ [Clean_up_task]"

text \<open>
  How a promise of \<^verbatim>\<open>getLogs\<close> is settled once the chain has run on the file
  \<open>f\<close>; \<open>None\<close> for a link the chain does not have.
\<close>

datatype outcome = Rejects error | Resolves val

definition settled ::
  "logger \<Rightarrow> date_ctor \<Rightarrow> (nat \<Rightarrow> int) \<Rightarrow> task list \<Rightarrow> log_file \<Rightarrow> promise \<Rightarrow> outcome option" where
  "settled L mk clk promise_chain f p =
     (case p of
        Rejected err \<Rightarrow> Some (Rejects err)
      | Link_promise k \<Rightarrow>
          (let vs = fst (run_chain L mk clk 0 promise_chain f)
           in if k < length vs then Some (Resolves (vs ! k)) else None))"

text \<open>The time of a date's fields, and the sequence \<^verbatim>\<open>log(m)\<close>,
  \<^verbatim>\<open>getLogs()\<close>, \<^verbatim>\<open>cleanUp()\<close>, \<^verbatim>\<open>getLogs()\<close> on a new
  instance: what the two promises are settled with.\<close>

definition time_of :: "date_ctor \<Rightarrow> dateObj \<Rightarrow> int" where
  "time_of mk d =
     mk (int (getFullYear d)) (int (getMonth d)) (int (getDate d)) (int (getHours d))
        (int (getMinutes d)) (int (getSeconds d)) (int (getMilliseconds d))"

definition round_trip ::
  "logger \<Rightarrow> date_ctor \<Rightarrow> (nat \<Rightarrow> int) \<Rightarrow> log_file \<Rightarrow> string \<Rightarrow> bool \<Rightarrow> dateObj
     \<Rightarrow> outcome option \<times> outcome option" where
  "round_trip L mk clk f m fm d =
     (let ch = log L m fm d [];
          (p, ch) = getLogs L None None None ch;
          ch = cleanUp ch;
          (q, ch) = getLogs L None None None ch
      in (settled L mk clk ch f p, settled L mk clk ch f q))"

subsection \<open>Values used in the examples\<close>

text \<open>The instance of the source file, \<^verbatim>\<open>new Logger("test.log")\<close>, a file with a
  given text, and a file that does not exist.\<close>

definition test_logger :: logger where
  "test_logger = default_logger ''test.log''"

definition stored :: "string \<Rightarrow> log_file" where
  "stored d = \<lparr>content = Some d, readable = True, writable = True\<rparr>"

definition absent :: log_file where
  "absent = \<lparr>content = None, readable = True, writable = True\<rparr>"

text \<open>A file with a given text that the process may not read.\<close>

definition unreadable :: "string \<Rightarrow> log_file" where
  "unreadable d = \<lparr>content = Some d, readable = False, writable = True\<rparr>"

text \<open>A date: 3 February 2024, 04:05:06.007.\<close>

definition feb3 :: dateObj where
  "feb3 = \<lparr>getFullYear = 2024, getMonth = 1, getDate = 3, getHours = 4, getMinutes = 5,
            getSeconds = 6, getMilliseconds = 7\<rparr>"

text \<open>A clock that stands still, and the instance with \<open>auto_format\<close> off.\<close>

definition frozen_clock :: "nat \<Rightarrow> int" where
  "frozen_clock i = 0"

definition raw_logger :: logger where
  "raw_logger = test_logger\<lparr>auto_format := False\<rparr>"

definition three_entries :: string where
  "three_entries =
     [CHR 0x0A] @ ''[03/02/2024 04:04:16.7] - old'' @ [CHR 0x0A, CHR 0x0A]
       @ ''[03/02/2024 04:05:06.7] - edge'' @ [CHR 0x0A, CHR 0x0A]
       @ ''[03/02/2024 04:05:56.7] - new'' @ [CHR 0x0A]"

definition two_entries :: string where
  "two_entries =
     [CHR 0x0A] @ ''[03/02/2024 04:05:06.7] - edge'' @ [CHR 0x0A, CHR 0x0A]
       @ ''[03/02/2024 04:05:56.7] - new'' @ [CHR 0x0A]"

section \<open>Properties\<close>

subsection \<open>Lines of a file\<close>

lemma split_nl_not_Nil: "split_nl s \<noteq> []"
  by (induction s) (auto split: list.splits)

lemma split_nl_no_nl: "CHR 0x0A \<notin> set s \<Longrightarrow> split_nl s = [s]"
  by (induction s) auto

lemma split_nl_append: "split_nl (a @ CHR 0x0A # b) = split_nl a @ split_nl b"
  by (induction a) (auto split: list.splits simp: split_nl_not_Nil)

lemma split_nl_free: "x \<in> set (split_nl s) \<Longrightarrow> CHR 0x0A \<notin> set x"
  by (induction s arbitrary: x) (auto split: if_splits list.splits)

lemma entries_Nil: "entries [] = []"
  by (simp add: entries_def)

lemma entries_append: "entries (a @ CHR 0x0A # b) = entries a @ entries b"
  by (simp add: entries_def split_nl_append)

lemma entries_single: "x \<noteq> [] \<Longrightarrow> CHR 0x0A \<notin> set x \<Longrightarrow> entries x = [x]"
  by (simp add: entries_def split_nl_no_nl)

lemma entries_nonempty: "x \<in> set (entries s) \<Longrightarrow> x \<noteq> []"
  by (auto simp: entries_def split: if_splits)

lemma entries_free: "x \<in> set (entries s) \<Longrightarrow> CHR 0x0A \<notin> set x"
  by (auto simp: entries_def split_nl_free split: if_splits)

lemma entries_block:
  "x \<noteq> [] \<Longrightarrow> CHR 0x0A \<notin> set x \<Longrightarrow> entries (a @ CHR 0x0A # x @ CHR 0x0A # b) = entries a @ x # entries b"
  using entries_append [of a "x @ CHR 0x0A # b"] entries_append [of x b]
  by (simp add: entries_single)

lemma join_blocks:
  "join_nl (concat (map (\<lambda>x. [[], x]) xs) @ [[]]) = concat (map (\<lambda>x. CHR 0x0A # x @ [CHR 0x0A]) xs)"
proof (induction xs)
  case Nil
  show ?case by simp
next
  case (Cons x xs)
  obtain y ys where R: "concat (map (\<lambda>x. [[], x]) xs) @ [[]] = y # ys"
    by (cases "concat (map (\<lambda>x. [[], x]) xs) @ [[]]") auto
  show ?case using Cons R by simp
qed

lemma entries_blocks:
  "\<forall>x \<in> set xs. x \<noteq> [] \<and> CHR 0x0A \<notin> set x \<Longrightarrow>
   entries (a @ concat (map (\<lambda>x. CHR 0x0A # x @ [CHR 0x0A]) xs)) = entries a @ xs"
proof (induction xs arbitrary: a)
  case Nil
  show ?case by simp
next
  case (Cons x xs)
  have "entries ((a @ CHR 0x0A # x @ [CHR 0x0A]) @ concat (map (\<lambda>x. CHR 0x0A # x @ [CHR 0x0A]) xs))
        = entries (a @ CHR 0x0A # x @ [CHR 0x0A]) @ xs"
    using Cons.prems by (intro Cons.IH) simp
  moreover have "entries (a @ CHR 0x0A # x @ [CHR 0x0A]) = entries a @ [x]"
    using entries_block [of x a "[]"] Cons.prems by (simp add: entries_Nil)
  ultimately show ?case by simp
qed

lemma entries_rewritten:
  "entries (join_nl (concat (map (\<lambda>x. [[], x]) (filter P (entries d))) @ [[]])) = filter P (entries d)"
proof -
  have "\<forall>x \<in> set (filter P (entries d)). x \<noteq> [] \<and> CHR 0x0A \<notin> set x"
    by (auto dest: entries_nonempty entries_free)
  from entries_blocks [OF this, of "[]"] show ?thesis
    by (simp add: join_blocks entries_Nil)
qed

subsection \<open>The handler and the chain\<close>

lemma getLogData_cases:
  "getLogData f = (if content f \<noteq> None \<and> readable f then Inr (entries (the (content f))) else Inl SplitNotAFunction)"
  by (auto simp: getLogData_def readFile_def split: option.splits)

lemma clean_up_success:
  "handler L mk now Clean_up_task f = (Inr v, f') \<Longrightarrow>
     v = Undefined \<and> writable f \<and> readable f \<and> (\<exists>d. content f = Some d \<and>
       f' = f\<lparr>content := Some (join_nl (concat (map (\<lambda>x. [[], x])
              (filter (clean_up_filter L mk now) (entries d))) @ [[]]))\<rparr>)"
  by (auto simp: getLogData_cases writeFile_def Let_def split: if_splits sum.splits)

lemma clean_up_entries:
  assumes "handler L mk now Clean_up_task f = (Inr v, f')"
  shows "\<exists>d. content f = Some d \<and> getLogData f = Inr (entries d)
           \<and> getLogData f' = Inr (filter (clean_up_filter L mk now) (entries d))"
proof -
  from clean_up_success [OF assms] obtain d where
    d: "content f = Some d" "readable f"
       "f' = f\<lparr>content := Some (join_nl (concat (map (\<lambda>x. [[], x])
              (filter (clean_up_filter L mk now) (entries d))) @ [[]]))\<rparr>"
    by blast
  show ?thesis using d by (simp add: getLogData_cases entries_rewritten)
qed

lemma handler_failure_keeps_file:
  "handler L mk now t f = (Inl e, f') \<Longrightarrow> f' = f"
  by (cases t) (auto simp: Let_def split: sum.splits option.splits)

lemma handler_get_logs_keeps_file:
  "snd (handler L mk now (Get_logs_task cb d c) f) = f"
  by (auto simp: Let_def split: sum.splits option.splits)

lemma link_failure_keeps_file:
  "link L mk now t f = (Err e, f') \<Longrightarrow> f' = f"
  by (cases "handler L mk now t f"; cases "fst (handler L mk now t f)"; cases t)
     (auto simp: link_def Let_def split: sum.splits option.splits)

lemma link_clean_up_twice:
  "snd (link L mk now Clean_up_task (snd (link L mk now Clean_up_task f)))
     = snd (link L mk now Clean_up_task f)"
proof (cases "handler L mk now Clean_up_task f")
  case (Pair r f')
  show ?thesis
  proof (cases r)
    case (Inl e)
    have "f' = f"
      using Pair Inl handler_failure_keeps_file [of L mk now Clean_up_task f e f'] by simp
    with Pair Inl show ?thesis by (simp add: link_def)
  next
    case (Inr v)
    with Pair have h: "handler L mk now Clean_up_task f = (Inr v, f')" by simp
    from clean_up_success [OF h] obtain d where
      d: "content f = Some d" "readable f" "writable f"
         "f' = f\<lparr>content := Some (join_nl (concat (map (\<lambda>x. [[], x])
              (filter (clean_up_filter L mk now) (entries d))) @ [[]]))\<rparr>"
      by blast
    have "snd (handler L mk now Clean_up_task f') = f'"
      using d by (simp add: getLogData_cases entries_rewritten writeFile_def)
    moreover have "snd (link L mk now Clean_up_task f') = snd (handler L mk now Clean_up_task f')"
      by (simp add: link_def split: prod.splits sum.splits)
    moreover have "snd (link L mk now Clean_up_task f) = f'"
      using h by (simp add: link_def)
    ultimately show ?thesis by simp
  qed
qed

lemma run_chain_append:
  "run_chain L mk clk k (a @ b) f =
     (case run_chain L mk clk k a f of (vs, f') \<Rightarrow>
        (case run_chain L mk clk (k + length a) b f' of (ws, f'') \<Rightarrow> (vs @ ws, f'')))"
  by (induction a arbitrary: k f) (auto split: prod.splits)

lemma run_chain_clock:
  "(\<And>i. k \<le> i \<Longrightarrow> i < k + length ts \<Longrightarrow> clk i = clk' i) \<Longrightarrow>
     run_chain L mk clk k ts f = run_chain L mk clk' k ts f"
proof (induction ts arbitrary: k f)
  case Nil
  show ?case by simp
next
  case (Cons t ts)
  have "clk k = clk' k" using Cons.prems by simp
  moreover have "\<And>g. run_chain L mk clk (Suc k) ts g = run_chain L mk clk' (Suc k) ts g"
    using Cons.prems by (intro Cons.IH) simp_all
  ultimately show ?case by simp
qed

lemma run_chain_length: "length (fst (run_chain L mk clk k ts f)) = length ts"
proof (induction ts arbitrary: k f)
  case Nil
  show ?case by simp
next
  case (Cons t ts)
  obtain v f' where l: "link L mk (clk k) t f = (v, f')"
    by (cases "link L mk (clk k) t f")
  show ?case using l Cons.IH [of "Suc k" f'] by (auto split: prod.splits)
qed

subsection \<open>Compaction twice\<close>

text \<open>
  C9.  Calling \<^verbatim>\<open>cleanUp()\<close> twice in succession, with nothing attached to the
  chain between the two calls and the same reading \<open>now\<close> of the clock in both, leaves
  the same file as calling it once: for every file, every chain \<open>c\<close> that ran before,
  every pattern and every retention.
\<close>

theorem cleanUp_twice_same_file:
  "snd (run_chain L mk (clk(length c := now, Suc (length c) := now)) 0 (cleanUp (cleanUp c)) f)
     = snd (run_chain L mk (clk(length c := now)) 0 (cleanUp c) f)"
proof -
  let ?c1 = "clk(length c := now)" and ?c2 = "clk(length c := now, Suc (length c) := now)"
  have same: "run_chain L mk ?c2 0 c f = run_chain L mk ?c1 0 c f"
    by (rule run_chain_clock) simp_all
  obtain vs f1 where r: "run_chain L mk ?c1 0 c f = (vs, f1)"
    by (cases "run_chain L mk ?c1 0 c f")
  have one: "snd (run_chain L mk ?c1 0 (cleanUp c) f) = snd (link L mk now Clean_up_task f1)"
    using r by (simp add: cleanUp_def run_chain_append split: prod.splits)
  have two: "snd (run_chain L mk ?c2 0 (cleanUp (cleanUp c)) f)
        = snd (link L mk now Clean_up_task (snd (link L mk now Clean_up_task f1)))"
    using r same by (simp add: cleanUp_def run_chain_append split: prod.splits)
  show ?thesis using one two by (simp add: link_clean_up_twice)
qed

subsection \<open>What compaction keeps\<close>

lemma link_clean_up_entries:
  assumes "link L mk now Clean_up_task f = (Undefined, f')"
  shows "\<exists>d. getLogData f = Inr (entries d)
           \<and> getLogData f' = Inr (filter (clean_up_filter L mk now) (entries d))"
proof -
  obtain r g where h: "handler L mk now Clean_up_task f = (r, g)"
    by (cases "handler L mk now Clean_up_task f")
  with assms obtain v where "r = Inr v" "g = f'"
    by (cases r) (auto simp: link_def)
  with h clean_up_entries [of L mk now f v f'] show ?thesis by blast
qed

lemma clean_up_filter_parses:
  "clean_up_filter L mk now e \<Longrightarrow> rx_exec (date_cleanUp_regex L) e \<noteq> None"
  by (auto simp: clean_up_filter_def entry_time_def split: if_splits option.splits)

lemma clean_up_filter_age:
  "e \<noteq> [] \<Longrightarrow> entry_time L mk e = Some (Some t) \<Longrightarrow>
     clean_up_filter L mk now e = (now - t \<le> log_max_age L * 1000)"
  by (auto simp: clean_up_filter_def Let_def)

text \<open>
  C7.  A clean-up that runs (the file is read and written back) drops every line that the
  pattern of the store does not match: no such line is in the file afterwards, and no line
  is added.  This holds for every text of the file, every pattern and every retention.
\<close>

theorem unparseable_entries_dropped:
  assumes "link L mk now Clean_up_task f = (Undefined, f')"
  shows "\<exists>es es'. getLogData f = Inr es \<and> getLogData f' = Inr es' \<and> set es' \<subseteq> set es
           \<and> (\<forall>e. rx_exec (date_cleanUp_regex L) e = None \<longrightarrow> e \<notin> set es')"
proof -
  from link_clean_up_entries [OF assms] obtain d where
    d: "getLogData f = Inr (entries d)"
       "getLogData f' = Inr (filter (clean_up_filter L mk now) (entries d))"
    by blast
  have "\<forall>e. rx_exec (date_cleanUp_regex L) e = None
          \<longrightarrow> e \<notin> set (filter (clean_up_filter L mk now) (entries d))"
    by (auto dest: clean_up_filter_parses)
  with d show ?thesis by auto
qed

theorem unparseable_entries_dropped_witness:
  "link test_logger utc_time 1706933107007 Clean_up_task
      (stored (''hello'' @ [CHR 0x0A, CHR 0x0A] @ ''[03/02/2024 04:05:06.7] - x'' @ [CHR 0x0A]))
     = (Undefined, stored ([CHR 0x0A] @ ''[03/02/2024 04:05:06.7] - x'' @ [CHR 0x0A]))
   \<and> (\<exists>es es'.
         getLogData (stored (''hello'' @ [CHR 0x0A, CHR 0x0A] @ ''[03/02/2024 04:05:06.7] - x'' @ [CHR 0x0A])) = Inr es
       \<and> getLogData (stored ([CHR 0x0A] @ ''[03/02/2024 04:05:06.7] - x'' @ [CHR 0x0A])) = Inr es'
       \<and> set es' \<subseteq> set es
       \<and> (\<forall>e. rx_exec (date_cleanUp_regex test_logger) e = None \<longrightarrow> e \<notin> set es'))"
proof -
  have h: "link test_logger utc_time 1706933107007 Clean_up_task
      (stored (''hello'' @ [CHR 0x0A, CHR 0x0A] @ ''[03/02/2024 04:05:06.7] - x'' @ [CHR 0x0A]))
     = (Undefined, stored ([CHR 0x0A] @ ''[03/02/2024 04:05:06.7] - x'' @ [CHR 0x0A]))"
    by code_simp
  from unparseable_entries_dropped [OF h] h show ?thesis by blast
qed

lemma captures_kept:
  "(s', m') \<in> set (rx_match r (s, m)) \<Longrightarrow> m i \<noteq> None \<Longrightarrow> m' i \<noteq> None"
proof (induction r arbitrary: s m s' m')
  case (Seq a b)
  from Seq.prems(1) obtain s1 m1 where
    "(s1, m1) \<in> set (rx_match a (s, m))" "(s', m') \<in> set (rx_match b (s1, m1))"
    by auto
  with Seq.IH Seq.prems(2) show ?case by blast
next
  case (Grp j a)
  from Grp.prems(1) obtain m1 where
    "(s', m1) \<in> set (rx_match a (s, m))" "m' = m1(j \<mapsto> take (length s - length s') s)"
    by auto
  with Grp.IH Grp.prems(2) show ?case by auto
next
  case (Opt a)
  then show ?case by auto
next
  case (Lit l)
  then show ?case by (auto split: if_splits)
next
  case Digit
  then show ?case by (cases s) (auto split: if_splits)
next
  case Space
  then show ?case by (cases s) (auto split: if_splits)
next
  case Any
  then show ?case by (cases s) (auto split: if_splits)
qed simp

lemma group_captured: "(s', m') \<in> set (rx_match (Grp i a) (s, m)) \<Longrightarrow> m' i \<noteq> None"
  by auto

lemma seq_through:
  "(s', m') \<in> set (rx_match (Seq a b) st) \<Longrightarrow>
     \<exists>s1 m1. (s1, m1) \<in> set (rx_match a st) \<and> (s', m') \<in> set (rx_match b (s1, m1))"
  by auto

lemma date_groups_captured:
  assumes "rx_exec (mk_date_cleanUp_regex dd td) e = Some ma"
  shows "ma 1 \<noteq> None \<and> ma 2 \<noteq> None \<and> ma 3 \<noteq> None"
proof -
  let ?tail = "Seq (Opt Space)
            (Opt (seqs [Grp 4 (rep 1 2 Digit), Lit td, Grp 5 (rep 1 2 Digit), Lit td,
                        Grp 6 (rep 1 2 Digit), Any, Grp 7 (rep 1 3 Digit)]))"
  from assms obtain rest where
    "(rest, ma) \<in> set (rx_match (mk_date_cleanUp_regex dd td) (e, Map.empty))"
    by (auto simp: rx_exec_def rx_first_def split: list.splits)
  then have "(rest, ma) \<in> set (rx_match (Seq (Opt (Lit ''['')) (Seq (Grp 1 (rep 1 2 Digit))
      (Seq (Lit dd) (Seq (Grp 2 (rep 1 2 Digit)) (Seq (Lit dd) (Seq (Grp 3 (rep 4 4 Digit)) ?tail))))))
      (e, Map.empty))"
    by (simp only: mk_date_cleanUp_regex_def seqs.simps)
  from seq_through [OF this] obtain s1 m1 where
    "(rest, ma) \<in> set (rx_match (Seq (Grp 1 (rep 1 2 Digit))
      (Seq (Lit dd) (Seq (Grp 2 (rep 1 2 Digit)) (Seq (Lit dd) (Seq (Grp 3 (rep 4 4 Digit)) ?tail)))))
      (s1, m1))"
    by blast
  from seq_through [OF this] obtain s2 m2 where
    p1: "(s2, m2) \<in> set (rx_match (Grp 1 (rep 1 2 Digit)) (s1, m1))"
    and "(rest, ma) \<in> set (rx_match (Seq (Lit dd) (Seq (Grp 2 (rep 1 2 Digit))
           (Seq (Lit dd) (Seq (Grp 3 (rep 4 4 Digit)) ?tail)))) (s2, m2))"
    by blast
  from seq_through [OF this(2)] obtain s3 m3 where
    p2: "(s3, m3) \<in> set (rx_match (Lit dd) (s2, m2))"
    and "(rest, ma) \<in> set (rx_match (Seq (Grp 2 (rep 1 2 Digit))
           (Seq (Lit dd) (Seq (Grp 3 (rep 4 4 Digit)) ?tail))) (s3, m3))"
    by blast
  from seq_through [OF this(2)] obtain s4 m4 where
    p3: "(s4, m4) \<in> set (rx_match (Grp 2 (rep 1 2 Digit)) (s3, m3))"
    and "(rest, ma) \<in> set (rx_match (Seq (Lit dd) (Seq (Grp 3 (rep 4 4 Digit)) ?tail)) (s4, m4))"
    by blast
  from seq_through [OF this(2)] obtain s5 m5 where
    p4: "(s5, m5) \<in> set (rx_match (Lit dd) (s4, m4))"
    and "(rest, ma) \<in> set (rx_match (Seq (Grp 3 (rep 4 4 Digit)) ?tail) (s5, m5))"
    by blast
  from seq_through [OF this(2)] obtain s6 m6 where
    p5: "(s6, m6) \<in> set (rx_match (Grp 3 (rep 4 4 Digit)) (s5, m5))"
    and p6: "(rest, ma) \<in> set (rx_match ?tail (s6, m6))"
    by blast
  note p = p1 p2 p3 p4 p5 p6
  have 1: "m2 1 \<noteq> None" using p(1) by (rule group_captured)
  have 2: "m4 2 \<noteq> None" using p(3) by (rule group_captured)
  have 3: "m6 3 \<noteq> None" using p(5) by (rule group_captured)
  have "m6 1 \<noteq> None"
    using 1 p(2,3,4,5) by (blast dest: captures_kept)
  moreover have "m6 2 \<noteq> None"
    using 2 p(4,5) by (blast dest: captures_kept)
  ultimately show ?thesis
    using 3 p(6) by (blast dest: captures_kept)
qed

lemma matched_line_has_time:
  assumes "date_cleanUp_regex L = mk_date_cleanUp_regex dd td"
    and "rx_exec (date_cleanUp_regex L) e \<noteq> None"
  shows "\<exists>t. entry_time L mk e = Some (Some t)"
proof -
  from assms obtain ma where ma: "rx_exec (mk_date_cleanUp_regex dd td) e = Some ma" by auto
  from date_groups_captured [OF ma] ma assms(1) show ?thesis
    by (auto simp: entry_time_def)
qed

text \<open>
  C4.  For a store made with plain delimiters, a line that the pattern of the store matches
  always has a time \<open>t\<close>, and a clean-up that runs keeps such a line exactly when
  \<open>now - t \<le> log_max_age * 1000\<close>: a line of exactly that age stays, an older one
  goes.  In the example the retention is 150 seconds and the lines are 200, 150 and 100
  seconds old.
\<close>

theorem retained_iff_age_within_retention:
  assumes "link L mk now Clean_up_task f = (Undefined, f')"
    and "date_cleanUp_regex L = mk_date_cleanUp_regex dd td"
    and "plain_delimiter dd" and "plain_delimiter td"
  shows "\<exists>es es'. getLogData f = Inr es \<and> getLogData f' = Inr es'
           \<and> (\<forall>e \<in> set es. rx_exec (date_cleanUp_regex L) e \<noteq> None \<longrightarrow>
                  (\<exists>t. entry_time L mk e = Some (Some t)
                       \<and> (e \<in> set es') = (now - t \<le> log_max_age L * 1000)))"
proof -
  from link_clean_up_entries [OF assms(1)] obtain d where
    d: "getLogData f = Inr (entries d)"
       "getLogData f' = Inr (filter (clean_up_filter L mk now) (entries d))"
    by blast
  have "\<forall>e \<in> set (entries d). rx_exec (date_cleanUp_regex L) e \<noteq> None \<longrightarrow>
          (\<exists>t. entry_time L mk e = Some (Some t)
               \<and> (e \<in> set (filter (clean_up_filter L mk now) (entries d)))
                   = (now - t \<le> log_max_age L * 1000))"
  proof (intro ballI impI)
    fix e
    assume e: "e \<in> set (entries d)" and "rx_exec (date_cleanUp_regex L) e \<noteq> None"
    with matched_line_has_time [OF assms(2), of e mk] obtain t where
      t: "entry_time L mk e = Some (Some t)"
      by blast
    have "e \<noteq> []" using e by (rule entries_nonempty)
    with t e have "(e \<in> set (filter (clean_up_filter L mk now) (entries d)))
                   = (now - t \<le> log_max_age L * 1000)"
      by (simp add: clean_up_filter_age)
    with t show "\<exists>t. entry_time L mk e = Some (Some t)
               \<and> (e \<in> set (filter (clean_up_filter L mk now) (entries d)))
                   = (now - t \<le> log_max_age L * 1000)"
      by blast
  qed
  with d show ?thesis by blast
qed

theorem retained_iff_age_within_retention_witness:
  "link (test_logger\<lparr>log_max_age := 150\<rparr>) utc_time 1706933256007 Clean_up_task (stored three_entries)
     = (Undefined, stored two_entries)
   \<and> date_cleanUp_regex (test_logger\<lparr>log_max_age := 150\<rparr>) = mk_date_cleanUp_regex ''/'' '':''
   \<and> plain_delimiter ''/'' \<and> plain_delimiter '':''
   \<and> (\<exists>es es'. getLogData (stored three_entries) = Inr es \<and> getLogData (stored two_entries) = Inr es'
         \<and> (\<forall>e \<in> set es. rx_exec (date_cleanUp_regex (test_logger\<lparr>log_max_age := 150\<rparr>)) e \<noteq> None \<longrightarrow>
               (\<exists>t. entry_time (test_logger\<lparr>log_max_age := 150\<rparr>) utc_time e = Some (Some t)
                    \<and> (e \<in> set es')
                        = (1706933256007 - t \<le> log_max_age (test_logger\<lparr>log_max_age := 150\<rparr>) * 1000))))
   \<and> entry_time (test_logger\<lparr>log_max_age := 150\<rparr>) utc_time ''[03/02/2024 04:05:06.7] - edge''
         = Some (Some (1706933256007 - 150 * 1000))"
proof -
  have h: "link (test_logger\<lparr>log_max_age := 150\<rparr>) utc_time 1706933256007 Clean_up_task (stored three_entries)
     = (Undefined, stored two_entries)"
    by code_simp
  have r: "date_cleanUp_regex (test_logger\<lparr>log_max_age := 150\<rparr>) = mk_date_cleanUp_regex ''/'' '':''"
    by (simp add: test_logger_def default_logger_def)
  have t: "entry_time (test_logger\<lparr>log_max_age := 150\<rparr>) utc_time ''[03/02/2024 04:05:06.7] - edge''
         = Some (Some (1706933256007 - 150 * 1000))"
    by code_simp
  have p: "plain_delimiter ''/''" "plain_delimiter '':''"
    by code_simp+
  from retained_iff_age_within_retention [OF h r p] h r p t show ?thesis by blast
qed

subsection \<open>What a query returns\<close>




subsection \<open>Errors stay with their task\<close>

text \<open>
  C6.  When a link of the chain is fulfilled with an error, the file is as it was before
  the link ran; so every later link runs, and is fulfilled with what it would have been
  fulfilled with if the failing link had not been in the chain.
\<close>

theorem failed_task_spares_later_tasks:
  assumes "fst (link L mk (clk k) t f) = Err e"
  shows "run_chain L mk clk k (t # ts) f =
           (Err e # fst (run_chain L mk clk (Suc k) ts f), snd (run_chain L mk clk (Suc k) ts f))
         \<and> length (fst (run_chain L mk clk (Suc k) ts f)) = length ts"
proof -
  obtain f' where l: "link L mk (clk k) t f = (Err e, f')"
    using assms by (cases "link L mk (clk k) t f") auto
  then have "f' = f" by (rule link_failure_keeps_file)
  with l show ?thesis by (simp add: run_chain_length split: prod.splits)
qed

theorem failed_task_spares_later_tasks_witness:
  "fst (link (test_logger\<lparr>flag := ''wx''\<rparr>) utc_time 0 (Log_task ''late'') (stored two_entries))
     = Err (LogWriteError EEXIST)
   \<and> run_chain (test_logger\<lparr>flag := ''wx''\<rparr>) utc_time (\<lambda>i. 0) 0
         [Log_task ''late'', Get_logs_task None None None] (stored two_entries)
     = ([Err (LogWriteError EEXIST),
         Logs [''[03/02/2024 04:05:06.7] - edge'', ''[03/02/2024 04:05:56.7] - new'']],
        stored two_entries)"
proof -
  have h: "fst (link (test_logger\<lparr>flag := ''wx''\<rparr>) utc_time ((\<lambda>i. 0) (0::nat)) (Log_task ''late'')
                  (stored two_entries))
             = Err (LogWriteError EEXIST)"
    by code_simp
  have r: "run_chain (test_logger\<lparr>flag := ''wx''\<rparr>) utc_time (\<lambda>i. 0) (Suc 0)
             [Get_logs_task None None None] (stored two_entries)
           = ([Logs [''[03/02/2024 04:05:06.7] - edge'', ''[03/02/2024 04:05:56.7] - new'']],
              stored two_entries)"
    by code_simp
  from failed_task_spares_later_tasks [OF h, where ts = "[Get_logs_task None None None]"] h r
  show ?thesis by simp
qed

lemma link_get_logs:
  "\<exists>v. link L mk now (Get_logs_task cb d c) f = (v, f) \<and> v \<noteq> Undefined
     \<and> (getLogData f = Inl SplitNotAFunction \<longrightarrow> v = Err SplitNotAFunction)"
  by (auto simp: link_def Let_def split: sum.splits option.splits)

lemma getLogData_read: "getLogData f = Inl SplitNotAFunction \<longleftrightarrow> (\<exists>io. readFile f = Inl io)"
  by (auto simp: getLogData_def split: sum.splits)

lemma getLogs_not_rejected:
  "\<forall>e. fst (getLogs L cb d c ch) \<noteq> Rejected e \<Longrightarrow>
     getLogs L cb d c ch = (Link_promise (length ch), ch @ [Get_logs_task cb d c])"
  by (auto simp: getLogs_def split: option.splits if_splits)

lemma getLogs_link_always_fulfilled:
  assumes "\<forall>e. fst (getLogs L cb date_param content_param ch) \<noteq> Rejected e"
  shows "\<exists>v. settled L mk clk (snd (getLogs L cb date_param content_param ch)) f
                 (fst (getLogs L cb date_param content_param ch)) = Some (Resolves v)
           \<and> ((\<exists>io. readFile (snd (run_chain L mk clk 0 ch f)) = Inl io) \<longrightarrow> v = Err SplitNotAFunction)"
proof -
  obtain vs f1 where r: "run_chain L mk clk 0 ch f = (vs, f1)"
    by (cases "run_chain L mk clk 0 ch f")
  have len: "length vs = length ch"
    using run_chain_length [of L mk clk 0 ch f] r by simp
  from link_get_logs [of L mk "clk (length ch)" cb date_param content_param f1] obtain v where
    v: "link L mk (clk (length ch)) (Get_logs_task cb date_param content_param) f1 = (v, f1)"
       "getLogData f1 = Inl SplitNotAFunction \<longrightarrow> v = Err SplitNotAFunction"
    by blast
  have "settled L mk clk (ch @ [Get_logs_task cb date_param content_param]) f
          (Link_promise (length ch)) = Some (Resolves v)"
    using r v len by (simp add: settled_def run_chain_append nth_append)
  with getLogs_not_rejected [OF assms] v r show ?thesis
    by (auto simp: getLogData_read)
qed

text \<open>
  C10.  \<^verbatim>\<open>#getLogData\<close> catches the error of a failed read and then calls
  \<^verbatim>\<open>split\<close> on it.  So on a file that does not exist, and on a file that may
  not be read, the promise of \<^verbatim>\<open>getLogs()\<close> is fulfilled, but not with the
  read error: it is fulfilled with the \<^verbatim>\<open>TypeError\<close> of that call, the same
  value for both read errors.
\<close>

theorem failed_read_fulfils_with_TypeError:
  "readFile absent = Inl ENOENT
   \<and> settled test_logger utc_time frozen_clock (snd (getLogs test_logger None None None []))
        absent (fst (getLogs test_logger None None None []))
      = Some (Resolves (Err SplitNotAFunction))
   \<and> readFile (unreadable two_entries) = Inl EACCES
   \<and> settled test_logger utc_time frozen_clock (snd (getLogs test_logger None None None []))
        (unreadable two_entries) (fst (getLogs test_logger None None None []))
      = Some (Resolves (Err SplitNotAFunction))"
  by code_simp

subsection \<open>The formatted line\<close>

lemma is_digit_digit_char: "k < 10 \<Longrightarrow> is_digit (digit_char k)"
  by (simp add: is_digit_def digit_char_def)

lemma digit_char_value: "k < 10 \<Longrightarrow> of_char (digit_char k) - 48 = k"
  by (simp add: digit_char_def)

lemma is_digit_not_nl: "is_digit c \<Longrightarrow> c \<noteq> CHR 0x0A"
  by (auto simp: is_digit_def)

lemma digits_number_string: "list_all is_digit (number_string n)"
proof (induction n rule: number_string.induct)
  case (1 n)
  show ?case
  proof (cases "n < 10")
    case True
    then show ?thesis by (subst number_string.simps) (simp add: is_digit_digit_char)
  next
    case False
    with "1" show ?thesis by (subst number_string.simps) (simp add: is_digit_digit_char)
  qed
qed

lemma to_number_snoc: "to_number (xs @ [c]) = 10 * to_number xs + (of_char c - 48)"
  by (simp add: to_number_def)

lemma to_number_number_string: "to_number (number_string n) = n"
proof (induction n rule: number_string.induct)
  case (1 n)
  show ?case
  proof (cases "n < 10")
    case True
    then show ?thesis
      by (subst number_string.simps) (simp add: to_number_def digit_char_value)
  next
    case False
    with "1" show ?thesis
      by (subst number_string.simps) (simp add: to_number_snoc digit_char_value)
  qed
qed

lemma number_string_small: "n < 10 \<Longrightarrow> number_string n = [digit_char n]"
  by (subst number_string.simps) simp

lemma number_string_big:
  "10 \<le> n \<Longrightarrow> number_string n = number_string (n div 10) @ [digit_char (n mod 10)]"
  by (subst number_string.simps) simp

lemma length_number_string_1: "n < 10 \<Longrightarrow> length (number_string n) = 1"
  by (simp add: number_string_small)

lemma length_number_string_2: "10 \<le> n \<Longrightarrow> n < 100 \<Longrightarrow> length (number_string n) = 2"
proof -
  assume a: "10 \<le> n" "n < 100"
  then have "n div 10 < 10" by arith
  with a number_string_big [of n] length_number_string_1 [of "n div 10"] show ?thesis by simp
qed

lemma length_number_string_3: "100 \<le> n \<Longrightarrow> n < 1000 \<Longrightarrow> length (number_string n) = 3"
proof -
  assume a: "100 \<le> n" "n < 1000"
  then have "10 \<le> n div 10" "n div 10 < 100" by arith+
  with a number_string_big [of n] length_number_string_2 [of "n div 10"] show ?thesis by simp
qed

lemma length_number_string_4: "1000 \<le> n \<Longrightarrow> n < 10000 \<Longrightarrow> length (number_string n) = 4"
proof -
  assume a: "1000 \<le> n" "n < 10000"
  then have "100 \<le> n div 10" "n div 10 < 1000" by arith+
  with a number_string_big [of n] length_number_string_3 [of "n div 10"] show ?thesis by simp
qed

lemma length_number_string_le3:
  "n < 1000 \<Longrightarrow> 1 \<le> length (number_string n) \<and> length (number_string n) \<le> 3"
  using length_number_string_1 [of n] length_number_string_2 [of n] length_number_string_3 [of n]
  by (cases "n < 10"; cases "n < 100") auto

lemma length_pad2: "n < 100 \<Longrightarrow> length (pad2 n) = 2"
  using length_number_string_1 [of n] length_number_string_2 [of n]
  by (cases "n < 10") (auto simp: pad2_def)

lemma digits_pad2: "list_all is_digit (pad2 n)"
  by (simp add: pad2_def digits_number_string is_digit_def)

lemma to_number_Cons_0: "to_number (CHR ''0'' # xs) = to_number xs"
  by (simp add: to_number_def)

lemma to_number_pad2: "to_number (pad2 n) = n"
  by (simp add: pad2_def to_number_Cons_0 to_number_number_string)

lemma digits_no_nl: "list_all is_digit xs \<Longrightarrow> CHR 0x0A \<notin> set xs"
  by (induction xs) (auto dest: is_digit_not_nl)

lemma format_entry: "format m d = CHR 0x0A # formatted_entry m d @ [CHR 0x0A]"
  by (simp add: format_def formatted_entry_def)

lemma formatted_entry_nonempty: "formatted_entry m d \<noteq> []"
  by (simp add: formatted_entry_def)

lemma formatted_entry_no_nl: "CHR 0x0A \<notin> set m \<Longrightarrow> CHR 0x0A \<notin> set (formatted_entry m d)"
  by (simp add: formatted_entry_def digits_no_nl digits_pad2 digits_number_string)

lemma format_spec_default: "format m d = spec_format ''/'' '':'' m d"
  by (simp add: format_def spec_format_def)

text \<open>
  C5.  \<^verbatim>\<open>#format\<close> does not read the delimiters of the store: the line always
  has \<^verbatim>\<open>/\<close> in the date and \<^verbatim>\<open>:\<close> in the time (\<open>format_spec_default\<close>).
  For a store made with the delimiters \<^verbatim>\<open>-\<close> and \<^verbatim>\<open>_\<close> the line
  of the code and the line of the specification differ.
\<close>

theorem format_ignores_delimiters:
  "format ''x'' feb3 = [CHR 0x0A] @ ''[03/02/2024 04:05:06.7] - x'' @ [CHR 0x0A]
   \<and> spec_format ''-'' ''_'' ''x'' feb3 = [CHR 0x0A] @ ''[03-02-2024 04_05_06.7] - x'' @ [CHR 0x0A]
   \<and> format ''x'' feb3 \<noteq> spec_format ''-'' ''_'' ''x'' feb3"
  by code_simp

subsection \<open>Logging, then reading\<close>

lemma link_log_append:
  "flag L = ''a'' \<Longrightarrow> writable f \<Longrightarrow>
     link L mk now (Log_task line) f = (Undefined, f\<lparr>content := Some (text_of f @ line)\<rparr>)"
  by (simp add: link_def writeFile_def text_of_def)

lemma run_logs:
  "flag L = ''a'' \<Longrightarrow> writable f \<Longrightarrow>
     run_chain L mk clk k (map Log_task ls) f =
       (replicate (length ls) Undefined,
        if ls = [] then f else f\<lparr>content := Some (text_of f @ concat ls)\<rparr>)"
proof (induction ls arbitrary: k f)
  case Nil
  show ?case by simp
next
  case (Cons l ls)
  let ?g = "f\<lparr>content := Some (text_of f @ l)\<rparr>"
  have g: "writable ?g" "text_of ?g = text_of f @ l"
    using Cons.prems by (simp_all add: text_of_def)
  have "run_chain L mk clk (Suc k) (map Log_task ls) ?g =
       (replicate (length ls) Undefined,
        if ls = [] then ?g else ?g\<lparr>content := Some (text_of ?g @ concat ls)\<rparr>)"
    using Cons.prems g by (intro Cons.IH) simp_all
  then show ?case
    using Cons.prems g by (simp add: link_log_append)
qed

lemma foldl_log:
  "foldl (\<lambda>c (m, fm, d). log L m fm d c) ch calls =
     ch @ map (\<lambda>(m, fm, d). Log_task (if auto_format L \<or> fm then format m d else m)) calls"
  by (induction calls arbitrary: ch) (auto simp: log_def)

lemma getLogs_no_date:
  "getLogs L cb None c ch = (Link_promise (length ch), ch @ [Get_logs_task cb None c])"
  by (simp add: getLogs_def)

lemma link_get_all:
  "readable f \<Longrightarrow> content f = Some d \<Longrightarrow>
     link L mk now (Get_logs_task None None None) f = (Logs (entries d), f)"
  by (simp add: link_def getLogData_cases)

text \<open>
  C1, as the code has it.  On a store with the flag \<^verbatim>\<open>a\<close> whose file can be read
  and written, after calls of \<^verbatim>\<open>log\<close> that format their text (\<open>auto_format\<close>, or
  the flag of the call) with texts free of line feeds, \<^verbatim>\<open>getLogs()\<close> without
  filters is fulfilled with the lines the file had before, followed by exactly the
  formatted lines of the calls in the order of the calls.
\<close>

theorem formatted_logs_in_order:
  assumes "flag L = ''a''" and "readable f" and "writable f"
    and "\<forall>(m, fm, d) \<in> set calls. (auto_format L \<or> fm) \<and> CHR 0x0A \<notin> set m"
    and "calls \<noteq> [] \<or> content f \<noteq> None"
  shows "(let ch = foldl (\<lambda>c (m, fm, d). log L m fm d c) [] calls;
              (p, ch') = getLogs L None None None ch
          in settled L mk clk ch' f p)
         = Some (Resolves (Logs (entries (text_of f) @ map (\<lambda>(m, fm, d). formatted_entry m d) calls)))"
proof -
  let ?lines = "map (\<lambda>(m, fm, d). format m d) calls"
  let ?es = "map (\<lambda>(m, fm, d). formatted_entry m d) calls"
  have tasks: "map (\<lambda>(m, fm, d). Log_task (if auto_format L \<or> fm then format m d else m)) calls
                = map Log_task ?lines"
    using assms(4) by (induction calls) auto
  have blocks: "concat ?lines = concat (map (\<lambda>x. CHR 0x0A # x @ [CHR 0x0A]) ?es)"
    by (induction calls) (auto simp: format_entry)
  have good: "\<forall>x \<in> set ?es. x \<noteq> [] \<and> CHR 0x0A \<notin> set x"
    using assms(4) by (auto simp: formatted_entry_nonempty formatted_entry_no_nl)
  define g where "g = (if ?lines = [] then f else f\<lparr>content := Some (text_of f @ concat ?lines)\<rparr>)"
  have run: "run_chain L mk clk 0 (map Log_task ?lines) f = (replicate (length ?lines) Undefined, g)"
    using run_logs [OF assms(1) assms(3), of mk clk 0 ?lines] by (simp add: g_def)
  have g: "readable g" "content g = Some (text_of f @ concat ?lines)"
    using assms(2) assms(5) by (auto simp: g_def text_of_def)
  have "entries (text_of f @ concat ?lines) = entries (text_of f) @ ?es"
    using entries_blocks [OF good, of "text_of f"] blocks by simp
  with g have "link L mk (clk (length calls)) (Get_logs_task None None None) g
                 = (Logs (entries (text_of f) @ ?es), g)"
    by (simp add: link_get_all)
  with run show ?thesis
    by (simp add: foldl_log tasks getLogs_no_date settled_def run_chain_append nth_append)
qed

theorem formatted_logs_in_order_witness:
  "flag test_logger = ''a'' \<and> readable absent \<and> writable absent \<and> auto_format test_logger
   \<and> (let ch = foldl (\<lambda>c (m, fm, d). log test_logger m fm d c) []
                  [(''m1'', False, feb3), (''m2'', False, feb3)];
            (p, ch') = getLogs test_logger None None None ch
        in settled test_logger utc_time (\<lambda>i. 0) ch' absent p)
       = Some (Resolves (Logs [''[03/02/2024 04:05:06.7] - m1'', ''[03/02/2024 04:05:06.7] - m2'']))"
proof -
  have a: "flag test_logger = ''a''" by code_simp
  have b: "readable absent" "writable absent" by code_simp+
  have c: "\<forall>(m, fm, d) \<in> set [(''m1'', False, feb3), (''m2'', False, feb3)].
         (auto_format test_logger \<or> fm) \<and> CHR 0x0A \<notin> set m"
    by (simp add: test_logger_def default_logger_def)
  have d: "[(''m1'', False, feb3), (''m2'', False, feb3)] \<noteq> [] \<or> content absent \<noteq> None" by simp
  have e: "entries (text_of absent) @ map (\<lambda>(m, fm, d). formatted_entry m d)
             [(''m1'', False, feb3), (''m2'', False, feb3)]
           = [''[03/02/2024 04:05:06.7] - m1'', ''[03/02/2024 04:05:06.7] - m2'']"
    by code_simp
  have f: "auto_format test_logger" by code_simp
  from formatted_logs_in_order [OF a b c d, of utc_time "\<lambda>i. 0"] a b e f show ?thesis
    by simp
qed

text \<open>
  C1, as stated, fails with \<open>auto_format\<close> off: the texts are written as they are,
  with nothing between them, so two calls give one line.
\<close>

theorem raw_logs_run_together:
  "settled raw_logger utc_time frozen_clock
     (snd (getLogs raw_logger None None None
             (log raw_logger ''m2'' False feb3 (log raw_logger ''m1'' False feb3 []))))
     absent
     (fst (getLogs raw_logger None None None
             (log raw_logger ''m2'' False feb3 (log raw_logger ''m1'' False feb3 []))))
   = Some (Resolves (Logs [''m1m2'']))"
  by code_simp

subsection \<open>What the patterns match\<close>

lemma concat_map_fst:
  assumes "\<And>s m m'. map fst (F (s, m)) = map fst (F (s, m'))"
    and "map fst xs = map fst ys"
  shows "map fst (concat (map F xs)) = map fst (concat (map F ys))"
  using assms(2)
proof (induction xs arbitrary: ys)
  case Nil
  then show ?case by simp
next
  case (Cons x xs)
  then obtain y ys' where ys: "ys = y # ys'" "fst x = fst y" "map fst xs = map fst ys'"
    by (cases ys) auto
  have "map fst (F x) = map fst (F y)"
    using assms(1) [of "fst x" "snd x" "snd y"] ys(2) by (cases x; cases y) simp
  with Cons.IH [OF ys(3)] ys(1) show ?case by simp
qed

lemma map_fst_update:
  "map fst (map (\<lambda>(s', m'). (s', g s' m')) xs) = map fst xs"
  by (induction xs) auto

lemma rx_match_captures: "map fst (rx_match r (s, m)) = map fst (rx_match r (s, m'))"
proof (induction r arbitrary: s m m')
  case (Seq a b)
  show ?case
    using concat_map_fst [of "rx_match b", OF Seq.IH(2) Seq.IH(1)] by simp
next
  case (Grp i a)
  have g: "\<And>m. map fst (rx_match (Grp i a) (s, m)) = map fst (rx_match a (s, m))"
    using map_fst_update [of "\<lambda>s' m'. m'(i \<mapsto> take (length s - length s') s)"] by simp
  show ?case unfolding g by (rule Grp.IH)
next
  case (Opt a)
  then show ?case by simp
next
  case Digit
  show ?case by (cases s) simp_all
next
  case Space
  show ?case by (cases s) simp_all
next
  case Any
  show ?case by (cases s) simp_all
qed simp_all

lemma rx_rems_match: "map fst (rx_match r (s, m)) = rx_rems r s"
  unfolding rx_rems_def by (rule rx_match_captures)

lemma rx_rems_Seq: "rx_rems (Seq a b) s = concat (map (rx_rems b) (rx_rems a s))"
proof -
  have "\<And>xs. map fst (concat (map (rx_match b) xs)) = concat (map (rx_rems b) (map fst xs))"
  proof -
    fix xs :: "(string \<times> captures) list"
    show "map fst (concat (map (rx_match b) xs)) = concat (map (rx_rems b) (map fst xs))"
      by (induction xs) (auto simp: rx_rems_match)
  qed
  then show ?thesis by (simp add: rx_rems_def)
qed

lemma rx_rems_simps:
  "rx_rems Eps s = [s]"
  "rx_rems (Lit l) s = (if prefix l s then [drop (length l) s] else [])"
  "rx_rems (Opt a) s = rx_rems a s @ [s]"
  "rx_rems (Grp i a) s = rx_rems a s"
  using map_fst_update [of "\<lambda>s' m'. m'(i \<mapsto> take (length s - length s') s)"]
  by (simp_all add: rx_rems_def)

lemma rx_rems_class:
  "rx_rems Digit s = (case s of [] \<Rightarrow> [] | c # cs \<Rightarrow> if is_digit c then [cs] else [])"
  "rx_rems Space s = (case s of [] \<Rightarrow> [] | c # cs \<Rightarrow> if is_space c then [cs] else [])"
  "rx_rems Any s = (case s of [] \<Rightarrow> [] | c # cs \<Rightarrow> if is_line_terminator c then [] else [cs])"
  by (simp_all add: rx_rems_def split: list.splits)

lemma in_rems_Seq:
  "x \<in> set (rx_rems (Seq a b) s) \<longleftrightarrow> (\<exists>y \<in> set (rx_rems a s). x \<in> set (rx_rems b y))"
  by (auto simp: rx_rems_Seq)

lemma in_rems_Lit: "x \<in> set (rx_rems (Lit l) s) \<longleftrightarrow> s = l @ x"
  by (auto simp: rx_rems_simps prefix_def)

lemma in_rems_Opt: "x \<in> set (rx_rems (Opt a) s) \<longleftrightarrow> x = s \<or> x \<in> set (rx_rems a s)"
  by (auto simp: rx_rems_simps)

lemma in_rems_Digit: "x \<in> set (rx_rems Digit s) \<longleftrightarrow> (\<exists>c. is_digit c \<and> s = c # x)"
  by (auto simp: rx_rems_class split: list.splits)

lemma in_rems_digits:
  "lo \<le> hi \<Longrightarrow> x \<in> set (rx_rems (rep lo hi Digit) s) \<longleftrightarrow>
     (\<exists>ds. s = ds @ x \<and> list_all is_digit ds \<and> lo \<le> length ds \<and> length ds \<le> hi)"
proof (induction lo hi "Digit" arbitrary: s rule: rep.induct)
  case 1
  show ?case by (auto simp: rx_rems_simps)
next
  case (2 hi)
  show ?case (is "?l = ?r")
  proof
    assume ?l
    then consider "x = s" | c y where "is_digit c" "s = c # y" "x \<in> set (rx_rems (rep 0 hi Digit) y)"
      by (auto simp: in_rems_Opt in_rems_Seq in_rems_Digit)
    then show ?r
    proof cases
      case 1
      then show ?thesis by (intro exI [of _ "[]"]) simp
    next
      case 2
      with "2.hyps" [of y] obtain ds where "y = ds @ x" "list_all is_digit ds" "length ds \<le> hi"
        by auto
      with 2 show ?thesis by (intro exI [of _ "c # ds"]) simp
    qed
  next
    assume ?r
    then obtain ds where ds: "s = ds @ x" "list_all is_digit ds" "length ds \<le> Suc hi" by auto
    show ?l
    proof (cases ds)
      case Nil
      with ds show ?thesis by (simp add: in_rems_Opt)
    next
      case (Cons c cs)
      with ds "2.hyps" [of "cs @ x"] have "x \<in> set (rx_rems (rep 0 hi Digit) (cs @ x))" by auto
      with Cons ds show ?thesis by (auto simp: in_rems_Opt in_rems_Seq in_rems_Digit)
    qed
  qed
next
  case (3 lo)
  then show ?case by simp
next
  case (4 lo hi)
  show ?case (is "?l = ?r")
  proof
    assume ?l
    then obtain c y where c: "is_digit c" "s = c # y" "x \<in> set (rx_rems (rep lo hi Digit) y)"
      by (auto simp: in_rems_Seq in_rems_Digit)
    with "4.hyps" [of y] "4.prems" obtain ds where
      "y = ds @ x" "list_all is_digit ds" "lo \<le> length ds" "length ds \<le> hi"
      by auto
    with c show ?r by (intro exI [of _ "c # ds"]) simp
  next
    assume ?r
    then obtain ds where ds: "s = ds @ x" "list_all is_digit ds" "Suc lo \<le> length ds" "length ds \<le> Suc hi"
      by auto
    then obtain c cs where Cons: "ds = c # cs" by (cases ds) auto
    with ds "4.hyps" [of "cs @ x"] "4.prems" have "x \<in> set (rx_rems (rep lo hi Digit) (cs @ x))"
      by auto
    with Cons ds show ?l by (auto simp: in_rems_Seq in_rems_Digit)
  qed
qed

lemma rx_test_rems: "rx_test r s \<longleftrightarrow> set (rx_rems r s) \<noteq> {}"
  by (auto simp: rx_test_def rx_exec_def rx_first_def rx_rems_def split: list.splits)

lemma rems_Seq_nonempty:
  "set (rx_rems (Seq a b) s) \<noteq> {} \<longleftrightarrow> (\<exists>y \<in> set (rx_rems a s). set (rx_rems b y) \<noteq> {})"
  by (auto simp: rx_rems_Seq)

lemma optional_tail: "set (rx_rems (Seq (Opt a) (Opt b)) v) \<noteq> {}"
  by (auto simp: rx_rems_Seq rx_rems_simps)

lemma seq_nonemptyI:
  "y \<in> set (rx_rems a s) \<Longrightarrow> set (rx_rems b y) \<noteq> {} \<Longrightarrow> set (rx_rems (Seq a b) s) \<noteq> {}"
  by (auto simp: rx_rems_Seq)

lemma lit_rems: "s \<in> set (rx_rems (Lit l) (l @ s))"
  by (simp add: in_rems_Lit)

lemma date_regex_test:
  "rx_test (mk_date_regex dd td) s \<longleftrightarrow>
     (\<exists>b x y z rest. s = b @ x @ dd @ y @ dd @ z @ rest \<and> (b = [] \<or> b = ''['')
        \<and> list_all is_digit x \<and> 1 \<le> length x \<and> length x \<le> 2
        \<and> list_all is_digit y \<and> 1 \<le> length y \<and> length y \<le> 2
        \<and> list_all is_digit z \<and> length z = 4)"
  (is "?l = ?r")
proof
  assume ?l
  then obtain s1 s2 s3 s4 s5 s6 where
    p: "s1 = s \<or> s = ''['' @ s1"
       "s2 \<in> set (rx_rems (rep 1 2 Digit) s1)" "s2 = dd @ s3"
       "s4 \<in> set (rx_rems (rep 1 2 Digit) s3)" "s4 = dd @ s5"
       "s6 \<in> set (rx_rems (rep 4 4 Digit) s5)"
    unfolding mk_date_regex_def seqs.simps rx_test_rems rems_Seq_nonempty
    by (auto simp: in_rems_Opt in_rems_Lit)
  from p(2) obtain x where x: "s1 = x @ s2" "list_all is_digit x" "1 \<le> length x" "length x \<le> 2"
    by (subst (asm) in_rems_digits) auto
  from p(4) obtain y where y: "s3 = y @ s4" "list_all is_digit y" "1 \<le> length y" "length y \<le> 2"
    by (subst (asm) in_rems_digits) auto
  from p(6) obtain z where z: "s5 = z @ s6" "list_all is_digit z" "length z = 4"
    by (subst (asm) in_rems_digits) auto
  from p(1) obtain b where b: "s = b @ s1" "b = [] \<or> b = ''[''" by auto
  have "s = b @ x @ dd @ y @ dd @ z @ s6" using b x y z p by simp
  with b x y z show ?r by blast
next
  assume ?r
  then obtain b x y z rest where
    r: "s = b @ x @ dd @ y @ dd @ z @ rest" "b = [] \<or> b = ''[''"
       "list_all is_digit x" "1 \<le> length x" "length x \<le> 2"
       "list_all is_digit y" "1 \<le> length y" "length y \<le> 2"
       "list_all is_digit z" "length z = 4"
    by blast
  have 1: "x @ dd @ y @ dd @ z @ rest \<in> set (rx_rems (Opt (Lit ''['')) s)"
    using r(1,2) by (auto simp: in_rems_Opt in_rems_Lit)
  have 2: "dd @ y @ dd @ z @ rest \<in> set (rx_rems (rep 1 2 Digit) (x @ dd @ y @ dd @ z @ rest))"
    using r by (subst in_rems_digits) auto
  have 3: "dd @ z @ rest \<in> set (rx_rems (rep 1 2 Digit) (y @ dd @ z @ rest))"
    using r by (subst in_rems_digits) auto
  have 4: "rest \<in> set (rx_rems (rep 4 4 Digit) (z @ rest))"
    using r by (subst in_rems_digits) auto
  show ?l
    unfolding mk_date_regex_def seqs.simps rx_test_rems
    by (rule seq_nonemptyI [OF 1] seq_nonemptyI [OF 2] seq_nonemptyI [OF 3] seq_nonemptyI [OF 4]
          seq_nonemptyI [OF lit_rems] optional_tail)+
qed

lemma spec_conforms_rems:
  "spec_conforms dd td s \<longleftrightarrow> [] \<in> set (rx_rems (spec_date_pattern dd td) s)"
  by (simp add: spec_conforms_def rx_rems_def)

lemma spec_conforms_passes:
  assumes "spec_conforms dd td s"
  shows "rx_test (mk_date_regex dd td) s"
proof -
  from assms obtain s1 s2 s3 s4 s5 where
    p: "s1 \<in> set (rx_rems (rep 2 2 Digit) s)" "s1 = dd @ s2"
       "s3 \<in> set (rx_rems (rep 2 2 Digit) s2)" "s3 = dd @ s4"
       "s5 \<in> set (rx_rems (rep 4 4 Digit) s4)"
    unfolding spec_conforms_rems spec_date_pattern_def seqs.simps in_rems_Seq
    by (auto simp: in_rems_Lit)
  from p(1) obtain x where x: "s = x @ s1" "list_all is_digit x" "length x = 2"
    by (subst (asm) in_rems_digits) auto
  from p(3) obtain y where y: "s2 = y @ s3" "list_all is_digit y" "length y = 2"
    by (subst (asm) in_rems_digits) auto
  from p(5) obtain z where z: "s4 = z @ s5" "list_all is_digit z" "length z = 4"
    by (subst (asm) in_rems_digits) auto
  have "s = [] @ x @ dd @ y @ dd @ z @ s5" using x y z p by simp
  with x y z show ?thesis
    unfolding date_regex_test by (intro exI conjI) (assumption | simp)+
qed

lemma Logger_new_patterns:
  assumes "RegExp (date_regex_source dd td) = Inr (mk_date_regex dd td)"
    and "RegExp (date_cleanUp_regex_source dd td) = Inr (mk_date_cleanUp_regex dd td)"
    and "Logger_new RegExp file flg max_age dd td auto = Inr L"
  shows "date_regex L = mk_date_regex dd td \<and> date_cleanUp_regex L = mk_date_cleanUp_regex dd td"
  using assms by (auto simp: Logger_new_def split: if_splits)

lemma Logger_new_default:
  assumes "RegExp (date_regex_source ''/'' '':'') = Inr (mk_date_regex ''/'' '':'')"
    and "RegExp (date_cleanUp_regex_source ''/'' '':'') = Inr (mk_date_cleanUp_regex ''/'' '':'')"
  shows "Logger_new RegExp ''test.log'' ''a'' 7776000 ''/'' '':'' True = Inr test_logger"
  using assms by (simp add: Logger_new_def test_logger_def default_logger_def)

lemma getLogs_rejected:
  "(\<exists>e. fst (getLogs L cb (Some d) c ch) = Rejected e) \<longleftrightarrow> d \<noteq> [] \<and> \<not> rx_test (date_regex L) d"
  by (auto simp: getLogs_def split: option.splits)

lemma getLogs_chain:
  "snd (getLogs L cb (Some d) c ch) =
     (if d \<noteq> [] \<and> \<not> rx_test (date_regex L) d then ch else ch @ [Get_logs_task cb (Some d) c])"
  by (auto simp: getLogs_def split: option.splits)

subsection \<open>The check of the date filter\<close>

lemma conforming_date_enqueued:
  assumes "date_regex L = mk_date_regex dd td" and "spec_conforms dd td d"
  shows "getLogs L cb (Some d) c ch = (Link_promise (length ch), ch @ [Get_logs_task cb (Some d) c])"
proof -
  have "\<forall>e. fst (getLogs L cb (Some d) c ch) \<noteq> Rejected e"
    using getLogs_rejected [of L cb d c ch] spec_conforms_passes [OF assms(2)] assms(1) by auto
  then show ?thesis by (rule getLogs_not_rejected)
qed

text \<open>
  C2.  The pattern of the check has no anchor at its end.  On the instance of the source
  file, the date string \<^verbatim>\<open>03/02/2024 at noon\<close> is not of the form
  \<^verbatim>\<open>DD/MM/YYYY[ HH:MM:SS.mmm]\<close>, and \<^verbatim>\<open>getLogs\<close> does not reject it:
  the query is attached to the chain.  (A string of that form is never rejected:
  \<open>conforming_date_enqueued\<close>.)
\<close>

theorem date_with_trailing_text_accepted:
  "\<not> spec_conforms ''/'' '':'' ''03/02/2024 at noon''
   \<and> getLogs test_logger None (Some ''03/02/2024 at noon'') None []
       = (Link_promise 0, [Get_logs_task None (Some ''03/02/2024 at noon'') None])"
proof -
  have a: "\<not> spec_conforms ''/'' '':'' ''03/02/2024 at noon''"
    by code_simp
  have b: "rx_test (date_regex test_logger) ''03/02/2024 at noon''"
    by code_simp
  from a b show ?thesis by (simp add: getLogs_def)
qed

subsection \<open>Reading a formatted line back\<close>

lemma first_Seq:
  "rx_first a st = Some x \<Longrightarrow> rx_first b x = Some y \<Longrightarrow> rx_first (Seq a b) st = Some y"
  by (auto simp: rx_first_def split: list.splits)

lemma first_Opt: "rx_first a st = Some x \<Longrightarrow> rx_first (Opt a) st = Some x"
  by (auto simp: rx_first_def split: list.splits)

lemma first_Grp:
  "rx_first a (ds @ s, m) = Some (s, m') \<Longrightarrow> rx_first (Grp i a) (ds @ s, m) = Some (s, m'(i \<mapsto> ds))"
  by (auto simp: rx_first_def split: list.splits)

lemma first_Lit: "rx_first (Lit l) (l @ s, m) = Some (s, m)"
  by (simp add: rx_first_def)

lemma first_Space: "rx_first (Opt Space) (CHR '' '' # s, m) = Some (s, m)"
  by (simp add: rx_first_def is_space_def)

lemma first_Any: "rx_first Any (CHR ''.'' # s, m) = Some (s, m)"
  by (simp add: rx_first_def is_line_terminator_def)

lemma first_digits:
  "list_all is_digit ds \<Longrightarrow> lo \<le> length ds \<Longrightarrow> length ds \<le> hi \<Longrightarrow>
   length ds = hi \<or> s = [] \<or> \<not> is_digit (hd s) \<Longrightarrow>
     rx_first (rep lo hi Digit) (ds @ s, m) = Some (s, m)"
proof (induction lo hi "Digit" arbitrary: ds rule: rep.induct)
  case 1
  then show ?case by (simp add: rx_first_def)
next
  case (2 hi)
  show ?case
  proof (cases ds)
    case Nil
    with "2.prems" have "rx_match Digit (s, m) = []"
      by (cases s) auto
    with Nil show ?thesis by (simp add: rx_first_def)
  next
    case (Cons c cs)
    with "2.prems" have "rx_first (rep 0 hi Digit) (cs @ s, m) = Some (s, m)"
      by (intro "2.hyps") auto
    with Cons "2.prems" show ?thesis
      by (auto simp: rx_first_def split: list.splits)
  qed
next
  case (3 lo)
  then show ?case by simp
next
  case (4 lo hi)
  from "4.prems" obtain c cs where Cons: "ds = c # cs" by (cases ds) auto
  with "4.prems" have "rx_first (rep lo hi Digit) (cs @ s, m) = Some (s, m)"
    by (intro "4.hyps") auto
  with Cons "4.prems" show ?case
    by (auto simp: rx_first_def split: list.splits)
qed

lemma first_digits_group:
  "list_all is_digit ds \<Longrightarrow> lo \<le> length ds \<Longrightarrow> length ds \<le> hi \<Longrightarrow>
   length ds = hi \<or> s = [] \<or> \<not> is_digit (hd s) \<Longrightarrow>
     rx_first (Grp i (rep lo hi Digit)) (ds @ s, m) = Some (s, m(i \<mapsto> ds))"
  by (rule first_Grp) (rule first_digits)

lemma stamp_first:
  assumes "list_all is_digit a" "length a = 2" "list_all is_digit b" "length b = 2"
    and "list_all is_digit y" "length y = 4"
    and "list_all is_digit h" "length h = 2" "list_all is_digit mi" "length mi = 2"
    and "list_all is_digit sec" "length sec = 2"
    and "list_all is_digit ms" "1 \<le> length ms" "length ms \<le> 3"
  shows "rx_first (mk_date_cleanUp_regex ''/'' '':'')
           (''['' @ a @ ''/'' @ b @ ''/'' @ y @ '' '' @ h @ '':'' @ mi @ '':'' @ sec @ ''.'' @ ms
              @ '']'' @ rest, Map.empty)
         = Some ('']'' @ rest, [1 \<mapsto> a, 2 \<mapsto> b, 3 \<mapsto> y, 4 \<mapsto> h, 5 \<mapsto> mi, 6 \<mapsto> sec, 7 \<mapsto> ms])"
proof -
  have nd: "\<not> is_digit (hd ('']'' @ rest))" by (simp add: is_digit_def)
  show ?thesis
    unfolding mk_date_cleanUp_regex_def seqs.simps
    apply (rule first_Seq [OF first_Opt [OF first_Lit]])
    apply (rule first_Seq [OF first_digits_group]; (simp add: assms; fail)?)
    apply (rule first_Seq [OF first_Lit])
    apply (rule first_Seq [OF first_digits_group]; (simp add: assms; fail)?)
    apply (rule first_Seq [OF first_Lit])
    apply (rule first_Seq [OF first_digits_group]; (simp add: assms; fail)?)
    apply (rule first_Seq [where x = "(h @ '':'' @ mi @ '':'' @ sec @ ''.'' @ ms @ '']'' @ rest,
              [1 \<mapsto> a, 2 \<mapsto> b, 3 \<mapsto> y])"])
     apply (simp add: first_Space)
    apply (rule first_Opt)
    apply (rule first_Seq [OF first_digits_group]; (simp add: assms; fail)?)
    apply (rule first_Seq [OF first_Lit])
    apply (rule first_Seq [OF first_digits_group]; (simp add: assms; fail)?)
    apply (rule first_Seq [OF first_Lit])
    apply (rule first_Seq [OF first_digits_group]; (simp add: assms; fail)?)
    apply (rule first_Seq [where x = "(ms @ '']'' @ rest,
              [1 \<mapsto> a, 2 \<mapsto> b, 3 \<mapsto> y, 4 \<mapsto> h, 5 \<mapsto> mi, 6 \<mapsto> sec])"])
     apply (simp add: first_Any)
    apply (rule first_digits_group)
    using assms nd apply simp_all
    done
qed

lemma number_string_nonempty: "number_string n \<noteq> []"
  by (subst number_string.simps) simp

lemma pad2_nonempty: "pad2 n \<noteq> []"
  by (simp add: pad2_def number_string_nonempty)

lemma or_zero_pad2: "or_zero (Some (pad2 n)) = int n"
  by (simp add: pad2_nonempty to_number_pad2)

lemma or_zero_number_string: "or_zero (Some (number_string n)) = int n"
  by (simp add: number_string_nonempty to_number_number_string)

lemma formatted_entry_time:
  assumes "date_cleanUp_regex L = mk_date_cleanUp_regex ''/'' '':''" and "date_in_range d"
  shows "entry_time L mk (formatted_entry m d) = Some (Some (time_of mk d))"
proof -
  have e: "formatted_entry m d =
      ''['' @ pad2 (getDate d) @ ''/'' @ pad2 (getMonth d + 1) @ ''/''
       @ number_string (getFullYear d) @ '' '' @ pad2 (getHours d) @ '':''
       @ pad2 (getMinutes d) @ '':'' @ pad2 (getSeconds d) @ ''.''
       @ number_string (getMilliseconds d) @ '']'' @ ('' - '' @ m)"
    by (simp add: formatted_entry_def)
  have "rx_first (mk_date_cleanUp_regex ''/'' '':'') (formatted_entry m d, Map.empty)
      = Some ('']'' @ ('' - '' @ m),
           [1 \<mapsto> pad2 (getDate d), 2 \<mapsto> pad2 (getMonth d + 1), 3 \<mapsto> number_string (getFullYear d),
            4 \<mapsto> pad2 (getHours d), 5 \<mapsto> pad2 (getMinutes d), 6 \<mapsto> pad2 (getSeconds d),
            7 \<mapsto> number_string (getMilliseconds d)])"
  proof -
    have ms: "1 \<le> length (number_string (getMilliseconds d))"
             "length (number_string (getMilliseconds d)) \<le> 3"
      using assms(2) length_number_string_le3 [of "getMilliseconds d"]
      by (simp_all add: date_in_range_def)
    show ?thesis
      unfolding e using assms(2) ms
      by (intro stamp_first)
         (simp_all add: date_in_range_def digits_pad2 digits_number_string length_pad2
            length_number_string_4)
  qed
  then show ?thesis
    by (simp add: entry_time_def rx_exec_def assms(1) to_number_pad2 to_number_number_string
          or_zero_pad2 or_zero_number_string time_of_def del: or_zero.simps)
qed

lemma formatted_entry_kept:
  assumes "date_cleanUp_regex L = mk_date_cleanUp_regex ''/'' '':''" and "date_in_range d"
    and "now - time_of mk d \<le> log_max_age L * 1000"
  shows "clean_up_filter L mk now (formatted_entry m d)"
  using assms formatted_entry_time [OF assms(1,2), of mk m]
  by (simp add: clean_up_filter_def formatted_entry_nonempty)

lemma link_clean_up_run:
  "readable f \<Longrightarrow> writable f \<Longrightarrow> content f = Some t \<Longrightarrow>
     \<exists>t'. link L mk now Clean_up_task f = (Undefined, f\<lparr>content := Some t'\<rparr>)
          \<and> entries t' = filter (clean_up_filter L mk now) (entries t)"
  by (rule exI [of _ "join_nl (concat (map (\<lambda>x. [[], x])
        (filter (clean_up_filter L mk now) (entries t))) @ [[]])"])
     (simp add: link_def getLogData_cases writeFile_def entries_rewritten)

lemma link_log_write:
  assumes "writable f" and "(flag L = ''ax'' \<or> flag L = ''wx'') \<longrightarrow> content f = None"
  shows "link L mk now (Log_task line) f =
           (Undefined,
            f\<lparr>content := Some ((if flag L = ''a'' \<or> flag L = ''ax'' then text_of f else []) @ line)\<rparr>)"
  using assms by (auto simp: link_def writeFile_def text_of_def)

text \<open>
  C8, as the code has it.  On a store with the default delimiters whose file can be read
  and written (and, for the flags \<^verbatim>\<open>ax\<close> and \<^verbatim>\<open>wx\<close>, does not exist
  yet): after \<^verbatim>\<open>log(m)\<close> with a formatted text (\<open>auto_format\<close>, or the flag of
  the call) free of line feeds, at a date whose year has four digits, and a clean-up at a
  time when the line is within the retention, both \<^verbatim>\<open>getLogs()\<close> are fulfilled
  with lines that end with the same formatted line of \<open>m\<close>.  Before it come the lines
  that the write kept (all of the file with the flag \<^verbatim>\<open>a\<close>, none with
  \<^verbatim>\<open>w\<close>), and after the clean-up those of them that it kept.
\<close>

theorem formatted_entry_survives_cleanUp:
  assumes "date_cleanUp_regex L = mk_date_cleanUp_regex ''/'' '':''"
    and "auto_format L \<or> fm" and "readable f" and "writable f"
    and "(flag L = ''ax'' \<or> flag L = ''wx'') \<longrightarrow> content f = None"
    and "CHR 0x0A \<notin> set m" and "date_in_range d"
    and "clk 2 - time_of mk d \<le> log_max_age L * 1000"
  shows "round_trip L mk clk f m fm d
         = (Some (Resolves (Logs
              ((if flag L = ''a'' \<or> flag L = ''ax'' then entries (text_of f) else [])
                 @ [formatted_entry m d]))),
            Some (Resolves (Logs
              (filter (clean_up_filter L mk (clk 2))
                 (if flag L = ''a'' \<or> flag L = ''ax'' then entries (text_of f) else [])
                 @ [formatted_entry m d]))))"
proof -
  let ?e = "formatted_entry m d"
  let ?kept = "if flag L = ''a'' \<or> flag L = ''ax'' then text_of f else []"
  let ?t1 = "?kept @ format m d"
  let ?f1 = "f\<lparr>content := Some ?t1\<rparr>"
  have f1: "readable ?f1" "writable ?f1" "content ?f1 = Some ?t1"
    using assms(3,4) by simp_all
  have kept: "entries ?kept = (if flag L = ''a'' \<or> flag L = ''ax'' then entries (text_of f) else [])"
    by (simp add: entries_Nil)
  have e1: "entries ?t1 = entries ?kept @ [?e]"
    using entries_block [of ?e ?kept "[]"] assms(6)
    by (simp add: format_entry formatted_entry_nonempty formatted_entry_no_nl entries_Nil)
  have l0: "link L mk (clk 0) (Log_task (format m d)) f = (Undefined, ?f1)"
    using assms(4,5) by (rule link_log_write)
  have l1: "link L mk (clk 1) (Get_logs_task None None None) ?f1 = (Logs (entries ?t1), ?f1)"
    using f1 by (simp add: link_get_all)
  from link_clean_up_run [OF f1, of L mk "clk 2"] obtain t2 where
    l2: "link L mk (clk 2) Clean_up_task ?f1 = (Undefined, ?f1\<lparr>content := Some t2\<rparr>)"
    and e2: "entries t2 = filter (clean_up_filter L mk (clk 2)) (entries ?t1)"
    by blast
  let ?f2 = "?f1\<lparr>content := Some t2\<rparr>"
  have l3: "link L mk (clk 3) (Get_logs_task None None None) ?f2 = (Logs (entries t2), ?f2)"
    using f1 by (simp add: link_get_all)
  let ?ch = "[Log_task (format m d), Get_logs_task None None None, Clean_up_task,
              Get_logs_task None None None]"
  have keep: "clean_up_filter L mk (clk 2) ?e"
    using assms(1,7,8) by (rule formatted_entry_kept)
  have chain: "round_trip L mk clk f m fm d
      = (settled L mk clk ?ch f (Link_promise 1), settled L mk clk ?ch f (Link_promise 3))"
    using assms(2)
    by (simp add: round_trip_def log_def getLogs_no_date cleanUp_def numeral_3_eq_3)
  have run: "run_chain L mk clk 0 ?ch f
      = ([Undefined, Logs (entries ?t1), Undefined, Logs (entries t2)], ?f2)"
    using l0 l1 l2 l3 by (simp add: numeral_2_eq_2 numeral_3_eq_3)
  have r1: "entries ?t1 = (if flag L = ''a'' \<or> flag L = ''ax'' then entries (text_of f) else [])
               @ [?e]"
    using e1 kept by simp
  have r2: "entries t2 = filter (clean_up_filter L mk (clk 2))
               (if flag L = ''a'' \<or> flag L = ''ax'' then entries (text_of f) else []) @ [?e]"
    using e2 r1 keep by simp
  show ?thesis
    unfolding chain using run r1 r2 by (simp add: settled_def)
qed

theorem formatted_entry_survives_cleanUp_witness:
  "date_cleanUp_regex test_logger = mk_date_cleanUp_regex ''/'' '':''
   \<and> auto_format test_logger \<and> readable absent \<and> writable absent
   \<and> flag test_logger = ''a'' \<and> CHR 0x0A \<notin> set ''x'' \<and> date_in_range feb3
   \<and> 1706933107007 - time_of utc_time feb3 \<le> log_max_age test_logger * 1000
   \<and> round_trip test_logger utc_time (\<lambda>i. 1706933107007) absent ''x'' False feb3
       = (Some (Resolves (Logs [''[03/02/2024 04:05:06.7] - x''])),
          Some (Resolves (Logs [''[03/02/2024 04:05:06.7] - x''])))
   \<and> flag (test_logger\<lparr>flag := ''w''\<rparr>) = ''w'' \<and> readable (stored two_entries)
   \<and> writable (stored two_entries)
   \<and> round_trip (test_logger\<lparr>flag := ''w''\<rparr>) utc_time (\<lambda>i. 1706933107007) (stored two_entries)
         ''x'' False feb3
       = (Some (Resolves (Logs [''[03/02/2024 04:05:06.7] - x''])),
          Some (Resolves (Logs [''[03/02/2024 04:05:06.7] - x''])))"
proof -
  let ?W = "test_logger\<lparr>flag := ''w''\<rparr>"
  have a: "flag test_logger = ''a''" "flag ?W = ''w''" by code_simp+
  have b: "date_cleanUp_regex test_logger = mk_date_cleanUp_regex ''/'' '':''"
          "date_cleanUp_regex ?W = mk_date_cleanUp_regex ''/'' '':''"
    by (simp_all add: test_logger_def default_logger_def)
  have c: "auto_format test_logger \<or> False" "auto_format ?W \<or> False" by code_simp+
  have d: "readable absent" "writable absent" "readable (stored two_entries)"
          "writable (stored two_entries)"
    by code_simp+
  have x: "(flag test_logger = ''ax'' \<or> flag test_logger = ''wx'') \<longrightarrow> content absent = None"
          "(flag ?W = ''ax'' \<or> flag ?W = ''wx'') \<longrightarrow> content (stored two_entries) = None"
    using a by simp_all
  have e: "CHR 0x0A \<notin> set ''x''" by simp
  have g: "date_in_range feb3" by code_simp
  have h: "(\<lambda>i. 1706933107007) (2::nat) - time_of utc_time feb3 \<le> log_max_age test_logger * 1000"
          "(\<lambda>i. 1706933107007) (2::nat) - time_of utc_time feb3 \<le> log_max_age ?W * 1000"
    by code_simp+
  have i: "entries (text_of absent) = []"
          "formatted_entry ''x'' feb3 = ''[03/02/2024 04:05:06.7] - x''"
    by code_simp+
  from formatted_entry_survives_cleanUp [OF b(1) c(1) d(1,2) x(1) e g h(1)]
       formatted_entry_survives_cleanUp [OF b(2) c(2) d(3,4) x(2) e g h(2)]
       a b c d e g h i
  show ?thesis by simp
qed

text \<open>
  C8, as stated, fails with \<open>auto_format\<close> off: the text \<^verbatim>\<open>x\<close> is written as
  it is, no pattern matches it, and the clean-up drops it whatever the retention.
\<close>

theorem raw_entry_lost_in_cleanUp:
  "round_trip raw_logger utc_time frozen_clock absent ''x'' False feb3
     = (Some (Resolves (Logs [''x''])), Some (Resolves (Logs [])))"
  by code_simp

end
